theory Spec2Isabelle
  imports Main "HOL-Library.Word"
begin

unbundle bit_operations_syntax

section \<open>Bytes, files and reads\<close>

text \<open>
  A container file is the sequence of its bytes. \<open>fread\<close> copies what is left of the
  file, up to the number of bytes asked for, over the start of the buffer and leaves the
  rest of the buffer as it was; it returns the number of bytes copied. The file position
  is threaded by the callers (\<open>fseek\<close> sets it, a read advances it by the bytes read).
\<close>

type_synonym byte = "8 word"
type_synonym mjr_file = "byte list"

definition ch :: "char \<Rightarrow> byte" where
  "ch c = of_char c"

definition fread :: "mjr_file \<Rightarrow> nat \<Rightarrow> nat \<Rightarrow> byte list \<Rightarrow> nat \<times> byte list" where
  "fread f pos n buf =
     (let got = take n (drop pos f) in (length got, got @ drop (length got) buf))"

definition ntohs :: "byte \<Rightarrow> byte \<Rightarrow> 16 word" where
  "ntohs b0 b1 = word_of_nat (unat b0 * 256 + unat b1)"

definition ntohl :: "byte \<Rightarrow> byte \<Rightarrow> byte \<Rightarrow> byte \<Rightarrow> 32 word" where
  "ntohl b0 b1 b2 b3 =
     word_of_nat (unat b0 * 16777216 + unat b1 * 65536 + unat b2 * 256 + unat b3)"

text \<open>
  \<open>bytes = fread(&len, sizeof(uint16_t), 1, file); len = ntohs(len);\<close>
  The two bytes read are the big-endian length. At the end of the file fewer than two
  bytes arrive and the bytes of the variable that were not overwritten keep the previous
  (host order) value; the host is taken to be little-endian, the stored value's low byte
  first. The result is the new value of \<open>len\<close> and the new file position.
\<close>

definition fread_len :: "mjr_file \<Rightarrow> nat \<Rightarrow> 16 word \<Rightarrow> 16 word \<times> nat" where
  "fread_len f pos old =
     (case take 2 (drop pos f) of
        [b0, b1] \<Rightarrow> (ntohs b0 b1, pos + 2)
      | [b0] \<Rightarrow> (ntohs b0 (ucast (drop_bit 8 old)), pos + 1)
      | _ \<Rightarrow> (ntohs (ucast old) (ucast (drop_bit 8 old)), pos))"

text \<open>
  Modelled from the spec: \<open>janus_rtp_header\<close> is declared in \<open>rtp.h\<close>, which is not part
  of the source file. The spec's transport header has the "sequence number at a fixed
  offset, 32-bit timestamp at a fixed offset"; these are the offsets of the RTP fixed
  header: sequence number in bytes 2-3, timestamp in bytes 4-7, both big-endian, and the
  payload type in the low seven bits of byte 1 (the top bit is the marker).
\<close>

definition rtp_seq_number :: "byte list \<Rightarrow> 16 word" where
  "rtp_seq_number buf = ntohs (buf ! 2) (buf ! 3)"

definition rtp_timestamp :: "byte list \<Rightarrow> 32 word" where
  "rtp_timestamp buf = ntohl (buf ! 4) (buf ! 5) (buf ! 6) (buf ! 7)"

definition rtp_set_type :: "byte list \<Rightarrow> int \<Rightarrow> byte list" where
  "rtp_set_type buf pt = buf[1 := (buf ! 1 AND 128) OR (word_of_int pt AND 127)]"

definition rtp_type :: "byte list \<Rightarrow> byte" where
  "rtp_type buf = buf ! 1 AND 127"

section \<open>The info header of a recording\<close>

text \<open>
  The parser of the JSON library is outside the repository: \<open>json_loads\<close> is a parameter
  of the index builder, from the text of the header (the bytes up to the first NUL) to
  the value parsed, \<open>None\<close> when the text is not JSON.
\<close>

datatype json = JNull | JTrue | JFalse | JInteger int | JReal | JString string
  | JArray "json list" | JObject "(string \<times> json) list"

definition json_object_get :: "json \<Rightarrow> string \<Rightarrow> json option" where
  "json_object_get j k = (case j of JObject kvs \<Rightarrow> map_of kvs k | _ \<Rightarrow> None)"

definition tolower :: "char \<Rightarrow> char" where
  "tolower c = (let n = (of_char c :: nat) in if 65 \<le> n \<and> n \<le> 90 then char_of (n + 32) else c)"

definition strcasecmp_eq :: "string \<Rightarrow> string \<Rightarrow> bool" where
  "strcasecmp_eq s t = (map tolower s = map tolower t)"

definition c_string :: "byte list \<Rightarrow> byte list" where
  "c_string buf = takeWhile (\<lambda>b. b \<noteq> 0) buf"

text \<open>The checks on the parsed info header: type "a" or "v", a codec name, the two times.\<close>

definition info_header_ok :: "json \<Rightarrow> bool" where
  "info_header_ok info =
     (case json_object_get info ''t'' of
        Some (JString t) \<Rightarrow>
          if strcasecmp_eq t ''v'' \<or> strcasecmp_eq t ''a'' then
            (case json_object_get info ''c'' of
               Some (JString c) \<Rightarrow>
                 (case json_object_get info ''s'' of
                    Some (JInteger c_time) \<Rightarrow>
                      (case json_object_get info ''u'' of
                         Some (JInteger w) \<Rightarrow> True
                       | _ \<Rightarrow> False)
                  | _ \<Rightarrow> False)
             | _ \<Rightarrow> False)
          else False
      | _ \<Rightarrow> False)"

section \<open>The index builder, pass 1: looking for timestamp resets\<close>

text \<open>The local variables of \<open>janus_auviousrecordplay_get_frames\<close> that outlive an iteration.\<close>

record scan_state =
  parsed_header :: bool
  rlen :: "16 word"
  prebuffer :: "byte list"
  first_ts :: "32 word"
  last_ts :: "32 word"
  reset :: "32 word"

definition scan_init :: scan_state where
  "scan_init = \<lparr>parsed_header = False, rlen = 0, prebuffer = replicate 1500 0,
     first_ts = 0, last_ts = 0, reset = 0\<rparr>"

text \<open>The bookkeeping done with each timestamp read in pass 1.\<close>

definition ts_track :: "32 word \<Rightarrow> scan_state \<Rightarrow> scan_state" where
  "ts_track t st =
     (let st1 =
        (if last_ts st = 0 then st\<lparr>first_ts := (if t > 1000000 then t - 1000000 else t)\<rparr>
         else if t < last_ts st then
           (if last_ts st - t > 2000000000 then st\<lparr>reset := t\<rparr> else st)
         else if t < reset st then st\<lparr>reset := t\<rparr>
         else st)
      in st1\<lparr>last_ts := t\<rparr>)"

datatype 'a iter = Return_NULL | Buffer_overflow | Next_iter nat 'a

text \<open>
  "Only read RTP header": sixteen bytes are read at the current position, the timestamp
  is taken from them and the offset moves past the record's data.
\<close>

definition pass1_rtp :: "mjr_file \<Rightarrow> nat \<Rightarrow> nat \<Rightarrow> scan_state \<Rightarrow> scan_state iter" where
  "pass1_rtp f pos offset st =
     (let (bytes, pb) = fread f pos 16 (prebuffer st)
      in Next_iter (offset + unat (rlen st)) (ts_track (rtp_timestamp pb) (st\<lparr>prebuffer := pb\<rparr>)))"

text \<open>
  One iteration of the first loop, from the offset of a record. A header whose length is
  1500 or more is written past the end of the 1500 byte buffer: \<open>Buffer_overflow\<close>.
\<close>

definition pass1_step ::
  "(byte list \<Rightarrow> json option) \<Rightarrow> mjr_file \<Rightarrow> nat \<Rightarrow> scan_state \<Rightarrow> scan_state iter" where
  "pass1_step json_loads f offset st =
     (let (bytes, pb) = fread f offset 8 (prebuffer st) in
      if bytes \<noteq> 8 \<or> pb ! 0 \<noteq> ch CHR ''M'' then Return_NULL
      else if pb ! 1 = ch CHR ''E'' then
        (let (l, pos) = fread_len f (offset + 8) (rlen st) in
         if l = 5 \<and> \<not> parsed_header st then
           (let (bytes, pb) = fread f pos 5 pb in
            if pb ! 0 = ch CHR ''v'' \<or> pb ! 0 = ch CHR ''a''
            then Next_iter (offset + 10 + unat l)
                   (st\<lparr>parsed_header := True, rlen := l, prebuffer := pb\<rparr>)
            else Return_NULL)
         else if l < 12 then Next_iter (offset + 10 + unat l) (st\<lparr>rlen := l, prebuffer := pb\<rparr>)
         else pass1_rtp f pos (offset + 10) (st\<lparr>rlen := l, prebuffer := pb\<rparr>))
      else if pb ! 1 = ch CHR ''J'' then
        (let (l, pos) = fread_len f (offset + 8) (rlen st) in
         if l > 0 \<and> \<not> parsed_header st then
           (if 1500 \<le> unat l then Buffer_overflow
            else
              let (bytes, pb) = fread f pos (unat l) pb;
                  pb = pb[unat l := 0]
              in case json_loads (c_string pb) of
                   None \<Rightarrow> Return_NULL
                 | Some info \<Rightarrow>
                     if info_header_ok info
                     then pass1_rtp f (pos + bytes) (offset + 10)
                            (st\<lparr>parsed_header := True, rlen := l, prebuffer := pb\<rparr>)
                     else Return_NULL)
         else pass1_rtp f pos (offset + 10) (st\<lparr>rlen := l, prebuffer := pb\<rparr>))
      else Return_NULL)"

function pass1_loop ::
  "(byte list \<Rightarrow> json option) \<Rightarrow> mjr_file \<Rightarrow> nat \<Rightarrow> scan_state \<Rightarrow> scan_state iter" where
  "pass1_loop json_loads f offset st =
     (if offset < length f then
        (case pass1_step json_loads f offset st of
           Next_iter offset' st' \<Rightarrow> pass1_loop json_loads f offset' st'
         | Return_NULL \<Rightarrow> Return_NULL
         | Buffer_overflow \<Rightarrow> Buffer_overflow)
      else Next_iter offset st)"
  by pat_completeness auto
termination
  by (relation "measure (\<lambda>(j, f, offset, st). length f - offset)")
     (auto simp: pass1_step_def pass1_rtp_def Let_def
       split: prod.splits if_splits option.splits)

section \<open>The index: a doubly linked list of frame packets\<close>

text \<open>
  The nodes live in a store; an address is the position of a node in it and
  \<open>g_malloc\<close> adds a node at the end. A pointer is an address or \<open>None\<close> for NULL. A
  dereference of an address outside the store has no result (\<open>None\<close> for the whole
  computation), and neither has a loop that does not come to an end.
\<close>

type_synonym addr = nat

record frame_packet =
  seq :: "16 word"
  ts :: "64 word"
  len :: nat
  offset :: nat
  pnext :: "addr option"
  pprev :: "addr option"

type_synonym heap = "frame_packet list"

text \<open>
  The block that appears three times in the source: the new packet \<open>p\<close> is linked in
  right after \<open>tmp\<close>. The result is the new store and the new \<open>last\<close> pointer.
\<close>

definition link_after ::
  "heap \<Rightarrow> addr \<Rightarrow> addr \<Rightarrow> addr option \<Rightarrow> (heap \<times> addr option) option" where
  "link_after h tmp p lastp =
     (if tmp < length h \<and> p < length h then
        (case pnext (h ! tmp) of
           Some n \<Rightarrow>
             if n < length h then
               (let h1 = h[n := (h ! n)\<lparr>pprev := Some p\<rparr>];
                    h2 = h1[p := (h1 ! p)\<lparr>pnext := pnext (h1 ! tmp)\<rparr>];
                    h3 = h2[tmp := (h2 ! tmp)\<lparr>pnext := Some p\<rparr>];
                    h4 = h3[p := (h3 ! p)\<lparr>pprev := Some tmp\<rparr>]
                in Some (h4, lastp))
             else None
         | None \<Rightarrow>
             (let h3 = h[tmp := (h ! tmp)\<lparr>pnext := Some p\<rparr>];
                  h4 = h3[p := (h3 ! p)\<lparr>pprev := Some tmp\<rparr>]
              in Some (h4, Some p)))
      else None)"

text \<open>Linking sets \<open>added = 1\<close> and leaves the loop.\<close>

definition link_added ::
  "heap \<Rightarrow> addr \<Rightarrow> addr \<Rightarrow> addr option \<Rightarrow> (heap \<times> addr option \<times> bool) option" where
  "link_added h tmp p lastp =
     (case link_after h tmp p lastp of
        None \<Rightarrow> None
      | Some (h', last') \<Rightarrow> Some (h', last', True))"

text \<open>
  \<open>abs(tmp->seq - p->seq)\<close>: both sequence numbers are promoted to \<open>int\<close> before the
  subtraction.
\<close>

definition seq_gap :: "16 word \<Rightarrow> 16 word \<Rightarrow> int" where
  "seq_gap a b = \<bar>uint a - uint b\<bar>"

text \<open>
  The scan from the end of the list towards its head, \<open>while(tmp)\<close>. The result is the
  store, the \<open>last\<close> pointer and the flag \<open>added\<close>.
\<close>

partial_function (option) scan_back ::
  "heap \<Rightarrow> addr \<Rightarrow> addr option \<Rightarrow> addr option \<Rightarrow> (heap \<times> addr option \<times> bool) option" where
  "scan_back h p lastp tmp =
     (if tmp = None then Some (h, lastp, False)
      else
        let t = the tmp in
          if t < length h \<and> p < length h then
            (if ts (h ! t) < ts (h ! p) then
               link_added h t p lastp
             else if ts (h ! t) = ts (h ! p) then
               (if seq (h ! t) < seq (h ! p) \<and> seq_gap (seq (h ! t)) (seq (h ! p)) < 10000 then
                  link_added h t p lastp
                else if seq (h ! t) > seq (h ! p) \<and> seq_gap (seq (h ! t)) (seq (h ! p)) > 10000 then
                  link_added h t p lastp
                else scan_back h p lastp (pprev (h ! t)))
             else scan_back h p lastp (pprev (h ! t)))
          else None)"

text \<open>
  A packet is allocated and put into the ordered list: the first packet becomes the
  list, a packet that the scan did not add becomes the new head. The result is the store
  and the pointers \<open>list\<close> and \<open>last\<close>.
\<close>

definition insert_packet ::
  "heap \<Rightarrow> addr option \<Rightarrow> addr option \<Rightarrow> frame_packet
     \<Rightarrow> (heap \<times> addr option \<times> addr option) option" where
  "insert_packet h0 listp lastp pk =
     (let p = length h0; h = h0 @ [pk] in
      case listp of
        None \<Rightarrow> Some (h, Some p, Some p)
      | Some hd_a \<Rightarrow>
          (case scan_back h p lastp lastp of
             None \<Rightarrow> None
           | Some (h', last', added) \<Rightarrow>
               if added then Some (h', listp, last')
               else if hd_a < length h' \<and> p < length h' then
                 (let h1 = h'[p := (h' ! p)\<lparr>pnext := listp\<rparr>];
                      h2 = h1[hd_a := (h1 ! hd_a)\<lparr>pprev := Some p\<rparr>]
                  in Some (h2, Some p, last'))
               else None))"

section \<open>The index builder, pass 2: parsing and ordering the frames\<close>

text \<open>The 64 bit timestamp of a packet, from the findings of pass 1.\<close>

definition extended_ts :: "32 word \<Rightarrow> 32 word \<Rightarrow> 32 word \<Rightarrow> 64 word" where
  "extended_ts rst first t =
     (if rst = 0 then ucast t
      else if t > first then ucast t
      else 4294967296 + ucast t)"

text \<open>
  The variables of the second loop: the length and the buffer (as pass 1 left them), the
  store, \<open>list\<close> and \<open>last\<close>.
\<close>

type_synonym index_state = "16 word \<times> byte list \<times> heap \<times> addr option \<times> addr option"

definition pass2_step ::
  "mjr_file \<Rightarrow> 32 word \<Rightarrow> 32 word \<Rightarrow> nat \<Rightarrow> index_state \<Rightarrow> (nat \<times> index_state) option" where
  "pass2_step f first rst off s =
     (case s of (l0, pb0, h, listp, lastp) \<Rightarrow>
        let (bytes, pb) = fread f off 8 pb0;
            pb = pb[8 := 0];
            (l, pos) = fread_len f (off + bytes) l0
        in if pb ! 1 = ch CHR ''J'' \<or> l < 12 then Some (off + 10 + unat l, (l, pb, h, listp, lastp))
           else
             let (bytes, pb) = fread f pos 16 pb;
                 pk = \<lparr>seq = rtp_seq_number pb,
                       ts = extended_ts rst first (rtp_timestamp pb),
                       len = unat l, offset = off + 10, pnext = None, pprev = None\<rparr>
             in case insert_packet h listp lastp pk of
                  None \<Rightarrow> None
                | Some (h', list', last') \<Rightarrow> Some (off + 10 + unat l, (l, pb, h', list', last')))"

function pass2_loop ::
  "mjr_file \<Rightarrow> 32 word \<Rightarrow> 32 word \<Rightarrow> nat \<Rightarrow> index_state \<Rightarrow> index_state option" where
  "pass2_loop f first rst off s =
     (if off < length f then
        (case pass2_step f first rst off s of
           None \<Rightarrow> None
         | Some (off', s') \<Rightarrow> pass2_loop f first rst off' s')
      else Some s)"
  by pat_completeness auto
termination
  by (relation "measure (\<lambda>(f, first, rst, off, s). length f - off)")
     (auto simp: pass2_step_def Let_def split: prod.splits if_splits option.splits)

text \<open>
  The result of \<open>janus_auviousrecordplay_get_frames\<close> on an open file: the store and the
  head of the list, \<open>Frames [] None\<close> for NULL.
\<close>

datatype frames_result = Buffer_overrun | Frames heap "addr option"

definition get_frames :: "(byte list \<Rightarrow> json option) \<Rightarrow> mjr_file \<Rightarrow> frames_result option" where
  "get_frames json_loads f =
     (case pass1_loop json_loads f 0 scan_init of
        Return_NULL \<Rightarrow> Some (Frames [] None)
      | Buffer_overflow \<Rightarrow> Some Buffer_overrun
      | Next_iter off st \<Rightarrow>
          (case pass2_loop f (first_ts st) (reset st) 0 (rlen st, prebuffer st, [], None, None) of
             None \<Rightarrow> None
           | Some (l, pb, h, listp, lastp) \<Rightarrow> Some (Frames h listp)))"

declare pass1_loop.simps [simp del] pass2_loop.simps [simp del]

section \<open>The playout thread\<close>

text \<open>
  The thread walks the two lists that the index builder made. A list is taken here as
  the sequence of its packets in list order and a pointer into it as a position: position
  0 is the head (\<open>session->aframes\<close>, \<open>session->vframes\<close>), \<open>next\<close> is the following
  position or NULL after the last packet, \<open>prev\<close> is the position before. A wall clock
  reading is a \<open>timeval\<close>; the readings of \<open>gettimeofday\<close> are inputs of an iteration.
\<close>

record timeval =
  tv_sec :: int
  tv_usec :: int

text \<open>Division and remainder of C, which round towards zero.\<close>

definition c_div :: "int \<Rightarrow> int \<Rightarrow> int" where
  "c_div a b = sgn a * sgn b * (\<bar>a\<bar> div \<bar>b\<bar>)"

definition c_mod :: "int \<Rightarrow> int \<Rightarrow> int" where
  "c_mod a b = a - b * c_div a b"

text \<open>
  \<open>int akhz = 48; if(audio_pt == 0 || audio_pt == 8 || audio_pt == 9) akhz = 8;\<close> and
  \<open>int vkhz = 90;\<close>
\<close>

definition akhz :: "int \<Rightarrow> int" where
  "akhz audio_pt = (if audio_pt = 0 \<or> audio_pt = 8 \<or> audio_pt = 9 then 8 else 48)"

definition vkhz :: int where
  "vkhz = 90"

text \<open>
  \<open>ts_diff = audio->ts - audio->prev->ts; ts_diff = (ts_diff*1000)/akhz;\<close> The difference
  of the two 64 bit timestamps is read as a signed 64 bit number. The product stays far
  from the ends of that type for the timestamps of an index, which are below \<open>2^33\<close>.
\<close>

definition ts_diff_us :: "int \<Rightarrow> 64 word \<Rightarrow> 64 word \<Rightarrow> int" where
  "ts_diff_us khz cur prv = c_div (sint (cur - prv) * 1000) khz"

text \<open>The time passed since the reference time, in microseconds.\<close>

definition passed_us :: "timeval \<Rightarrow> timeval \<Rightarrow> int" where
  "passed_us now before =
     (let d_s = tv_sec now - tv_sec before;
          d_us = tv_usec now - tv_usec before
      in if d_us < 0 then (d_s - 1) * 1000000 + (d_us + 1000000)
         else d_s * 1000000 + d_us)"

text \<open>"Update the reference time".\<close>

definition update_reference :: "timeval \<Rightarrow> int \<Rightarrow> timeval" where
  "update_reference before ts_diff =
     (let b1 = before\<lparr>tv_usec := tv_usec before + c_mod ts_diff 1000000\<rparr>;
          b2 = (if tv_usec b1 > 1000000
                then b1\<lparr>tv_sec := tv_sec b1 + 1, tv_usec := tv_usec b1 - 1000000\<rparr>
                else b1)
      in if c_div ts_diff 1000000 > 0
         then b2\<lparr>tv_sec := tv_sec b2 + c_div ts_diff 1000000,
                 tv_usec := tv_usec b2 - c_div ts_diff 1000000\<rparr>
         else b2)"

text \<open>
  A packet is read from the container into the 1500 byte buffer at its offset, its
  payload type is overwritten and the bytes read are relayed (\<open>gateway\<close> is set when the
  plugin starts and is taken not to be NULL). The result is the RTP packet relayed and
  the buffer, or \<open>None\<close> when more than 1500 bytes are read into the buffer.
\<close>

definition send_packet ::
  "mjr_file \<Rightarrow> frame_packet \<Rightarrow> int \<Rightarrow> byte list \<Rightarrow> (byte list \<times> byte list) option" where
  "send_packet f p pt buffer =
     (let (bytes, buf) = fread f (offset p) (len p) buffer
      in if 1500 < bytes then None
         else let buf = rtp_set_type buf pt in Some (take bytes buf, buf))"

definition next_pos :: "frame_packet list \<Rightarrow> nat \<Rightarrow> nat option" where
  "next_pos fs i = (if Suc i < length fs then Some (Suc i) else None)"

text \<open>
  The state of one track: the position in its list, the reference time and the buffer
  (shared by the two tracks). An iteration of a track gives the packets relayed, the flag
  \<open>asent\<close> or \<open>vsent\<close> and the new state; \<open>None\<close> stands for a read past the buffer or a
  position outside the list.
\<close>

type_synonym track_state = "nat option \<times> timeval \<times> byte list"

definition audio_step ::
  "mjr_file \<Rightarrow> frame_packet list \<Rightarrow> int \<Rightarrow> timeval \<Rightarrow> track_state
     \<Rightarrow> (byte list list \<times> bool \<times> track_state) option" where
  "audio_step afile aframes audio_pt now s =
     (case s of (audio, abefore, buffer) \<Rightarrow>
        (case audio of
           None \<Rightarrow> Some ([], False, s)
         | Some i \<Rightarrow>
             if length aframes \<le> i then None
             else if i = 0 then
               (case send_packet afile (aframes ! i) audio_pt buffer of
                  None \<Rightarrow> None
                | Some (pkt, buffer) \<Rightarrow> Some ([pkt], True, (next_pos aframes i, now, buffer)))
             else
               (let ts_diff = ts_diff_us (akhz audio_pt) (ts (aframes ! i)) (ts (aframes ! (i - 1)));
                    passed = passed_us now abefore
                in if passed < ts_diff - 5000 then Some ([], False, s)
                   else
                     (case send_packet afile (aframes ! i) audio_pt buffer of
                        None \<Rightarrow> None
                      | Some (pkt, buffer) \<Rightarrow>
                          Some ([pkt], True,
                                (next_pos aframes i, update_reference abefore ts_diff, buffer))))))"

text \<open>
  \<open>while(video && video->ts == ts)\<close>: the packets with the timestamp \<open>t\<close> from the position
  on are sent. The result is the packets relayed (after those in \<open>acc\<close>), the position
  reached and the buffer.
\<close>

function send_same_ts ::
  "mjr_file \<Rightarrow> frame_packet list \<Rightarrow> int \<Rightarrow> 64 word \<Rightarrow> nat option \<Rightarrow> byte list \<Rightarrow> byte list list
     \<Rightarrow> (byte list list \<times> nat option \<times> byte list) option" where
  "send_same_ts vfile vframes video_pt t video buffer acc =
     (case video of
        None \<Rightarrow> Some (acc, None, buffer)
      | Some i \<Rightarrow>
          if length vframes \<le> i then None
          else if ts (vframes ! i) = t then
            (case send_packet vfile (vframes ! i) video_pt buffer of
               None \<Rightarrow> None
             | Some (pkt, buffer') \<Rightarrow>
                 send_same_ts vfile vframes video_pt t (next_pos vframes i) buffer' (acc @ [pkt]))
          else Some (acc, video, buffer))"
  by pat_completeness auto
termination
  by (relation "measure (\<lambda>(vfile, vframes, video_pt, t, video, buffer, acc).
        case video of None \<Rightarrow> 0 | Some i \<Rightarrow> Suc (length vframes - i))")
     (auto simp: next_pos_def)

declare send_same_ts.simps [simp del]

definition video_step ::
  "mjr_file \<Rightarrow> frame_packet list \<Rightarrow> int \<Rightarrow> timeval \<Rightarrow> track_state
     \<Rightarrow> (byte list list \<times> bool \<times> track_state) option" where
  "video_step vfile vframes video_pt now s =
     (case s of (video, vbefore, buffer) \<Rightarrow>
        (case video of
           None \<Rightarrow> Some ([], False, s)
         | Some i \<Rightarrow>
             if length vframes \<le> i then None
             else if i = 0 then
               (case send_same_ts vfile vframes video_pt (ts (vframes ! i)) video buffer [] of
                  None \<Rightarrow> None
                | Some (pkts, video, buffer) \<Rightarrow> Some (pkts, True, (video, now, buffer)))
             else
               (let ts_diff = ts_diff_us vkhz (ts (vframes ! i)) (ts (vframes ! (i - 1)));
                    passed = passed_us now vbefore
                in if passed < ts_diff - 5000 then Some ([], False, s)
                   else
                     (case send_same_ts vfile vframes video_pt (ts (vframes ! i)) video buffer [] of
                        None \<Rightarrow> None
                      | Some (pkts, video, buffer) \<Rightarrow>
                          Some (pkts, True, (video, update_reference vbefore ts_diff, buffer))))))"

text \<open>
  One iteration of the loop of the thread, entered when the session and the recording are
  alive and one of the positions is not NULL: the sleep of 5 ms when the round before
  sent nothing, then the audio track, then the video track. What leaves the thread is a
  sleep or a packet relayed, with the flag \<open>video\<close> of \<open>janus_plugin_rtp\<close>.
\<close>

datatype play_event = Usleep nat | Relay_rtp bool "byte list"

record play_state =
  audio :: "nat option"
  video :: "nat option"
  abefore :: timeval
  vbefore :: timeval
  asent :: bool
  vsent :: bool
  buffer :: "byte list"

definition playout_iteration ::
  "mjr_file \<Rightarrow> frame_packet list \<Rightarrow> int \<Rightarrow> mjr_file \<Rightarrow> frame_packet list \<Rightarrow> int
     \<Rightarrow> timeval \<Rightarrow> timeval \<Rightarrow> play_state \<Rightarrow> (play_event list \<times> play_state) option" where
  "playout_iteration afile aframes audio_pt vfile vframes video_pt now_a now_v st =
     (let slept = (if \<not> asent st \<and> \<not> vsent st then [Usleep 5000] else []) in
      case audio_step afile aframes audio_pt now_a (audio st, abefore st, buffer st) of
        None \<Rightarrow> None
      | Some (apkts, a_sent, (a, ab, buf)) \<Rightarrow>
          (case video_step vfile vframes video_pt now_v (video st, vbefore st, buf) of
             None \<Rightarrow> None
           | Some (vpkts, v_sent, (v, vb, buf')) \<Rightarrow>
               Some (slept @ map (Relay_rtp False) apkts @ map (Relay_rtp True) vpkts,
                     \<lparr>audio = a, video = v, abefore = ab, vbefore = vb,
                       asent = a_sent, vsent = v_sent, buffer = buf'\<rparr>)))"

text \<open>
  The loop over the iterations for which clock readings are given: it goes on while the
  session and the recording are alive (the first component of an input) and a position is
  left.
\<close>

fun playout_loop ::
  "mjr_file \<Rightarrow> frame_packet list \<Rightarrow> int \<Rightarrow> mjr_file \<Rightarrow> frame_packet list \<Rightarrow> int
     \<Rightarrow> (bool \<times> timeval \<times> timeval) list \<Rightarrow> play_state \<Rightarrow> (play_event list \<times> play_state) option" where
  "playout_loop afile aframes audio_pt vfile vframes video_pt [] st = Some ([], st)"
| "playout_loop afile aframes audio_pt vfile vframes video_pt ((alive, now_a, now_v) # inputs) st =
     (if alive \<and> (audio st \<noteq> None \<or> video st \<noteq> None) then
        (case playout_iteration afile aframes audio_pt vfile vframes video_pt now_a now_v st of
           None \<Rightarrow> None
         | Some (evs, st') \<Rightarrow>
             (case playout_loop afile aframes audio_pt vfile vframes video_pt inputs st' of
                None \<Rightarrow> None
              | Some (evs', st'') \<Rightarrow> Some (evs @ evs', st'')))
      else Some ([], st))"

section \<open>The recordings and the requests\<close>

text \<open>
  The recordings are kept in the hash table \<open>recordings\<close>, from the id to the
  recording; a pointer to a recording is taken as its id. A list of frames of a session is
  a store with the head of the list, \<open>([], None)\<close> for NULL. The viewers of a recording are
  the handles of their sessions.
\<close>

record recording =
  rid :: "64 word"
  name :: "string option"
  date :: string
  arc_file :: "string option"
  acodec :: "string option"
  audio_pt :: int
  vrc_file :: "string option"
  vcodec :: "string option"
  video_pt :: int
  offer :: "string option"
  viewers :: "nat list"
  completed :: bool
  destroyed :: bool
  ref :: int

record session =
  handle :: nat
  sdp_sessid :: int
  sdp_version :: int
  recorder :: bool
  recording :: "64 word option"
  arc :: "string option"
  vrc :: "string option"
  aframes :: "heap \<times> addr option"
  vframes :: "heap \<times> addr option"

type_synonym recordings = "64 word \<Rightarrow> recording option"

definition AUDIO_PT :: int where
  "AUDIO_PT = 111"

definition VIDEO_PT :: int where
  "VIDEO_PT = 100"

definition ERROR_NOT_FOUND :: int where
  "ERROR_NOT_FOUND = 416"

definition ERROR_INVALID_RECORDING :: int where
  "ERROR_INVALID_RECORDING = 417"

definition ERROR_RECORDING_EXISTS :: int where
  "ERROR_RECORDING_EXISTS = 420"

text \<open>What a request ends with: the error event with its code and cause, or the result.\<close>

datatype 'a reply = Error int string | Result 'a

text \<open>\<open>json_integer_value\<close>, which is 0 for what is not an integer; \<open>%"SCNu64"\<close>.\<close>

definition json_integer_value :: "json option \<Rightarrow> int" where
  "json_integer_value j = (case j of Some (JInteger i) \<Rightarrow> i | _ \<Rightarrow> 0)"

fun decimal :: "nat \<Rightarrow> string" where
  "decimal n = (if n < 10 then [char_of (48 + n)] else decimal (n div 10) @ [char_of (48 + n mod 10)])"

declare decimal.simps [simp del]

subsection \<open>A new recording\<close>

text \<open>
  The part of the \<open>record\<close> request that starts a new recording, from taking
  \<open>recordings_mutex\<close> to releasing it. The calls that touch the table, the random numbers,
  the new recording and the recorders with their files are written to a trace in their
  order. The random numbers are the values of \<open>rnd\<close> in turn.
\<close>

datatype call =
    Mutex_lock
  | Mutex_unlock
  | Hash_table_lookup "64 word"
  | Random_uint64 "64 word"
  | Malloc_recording "64 word"
  | Recorder_create "string option" string
  | Hash_table_insert "64 word"

text \<open>
  \<open>while(id == 0) { id = janus_random_uint64(); if(g_hash_table_lookup(recordings, &id) !=
  NULL) id = 0; }\<close>
\<close>

partial_function (option) random_id ::
  "(nat \<Rightarrow> 64 word) \<Rightarrow> nat \<Rightarrow> recordings \<Rightarrow> call list \<Rightarrow> (64 word \<times> call list) option" where
  "random_id rnd n recordings tr =
     (if (if recordings (rnd n) \<noteq> None then 0 else rnd n) = 0
      then random_id rnd (Suc n) recordings (tr @ [Random_uint64 (rnd n), Hash_table_lookup (rnd n)])
      else Some (rnd n, tr @ [Random_uint64 (rnd n), Hash_table_lookup (rnd n)]))"

text \<open>
  What the request gives for the new recording: the \<open>id\<close> of the message if there is
  one, the name, the file name, the preferred codecs of the offer and whether its audio
  and video lines are \<open>recvonly\<close>, and the date and the time of the clock.
\<close>

record record_request =
  rec_id :: "json option"
  name_text :: "string option"
  filename_text :: "string option"
  offer_acodec :: "string option"
  offer_vcodec :: "string option"
  audio_recvonly :: bool
  video_recvonly :: bool
  outstr :: string
  real_time :: int

text \<open>"Some audio codecs have a fixed payload type that we can't mess with".\<close>

definition fixed_audio_pt :: "string option \<Rightarrow> int" where
  "fixed_audio_pt codec =
     (case codec of
        None \<Rightarrow> AUDIO_PT
      | Some c \<Rightarrow>
          if strcasecmp_eq c ''pcmu'' then 0
          else if strcasecmp_eq c ''pcma'' then 8
          else if strcasecmp_eq c ''g722'' then 9
          else AUDIO_PT)"

definition recorder_filename :: "string option \<Rightarrow> 64 word \<Rightarrow> string \<Rightarrow> string" where
  "recorder_filename text i medium =
     take 255 (case text of
                 Some t \<Rightarrow> t @ ''-'' @ medium
               | None \<Rightarrow> ''rec-'' @ decimal (unat i) @ ''-'' @ medium)"

definition new_recording :: "record_request \<Rightarrow> 64 word \<Rightarrow> recording" where
  "new_recording rq i =
     (let ac = (if audio_recvonly rq then None else offer_acodec rq);
          vc = (if video_recvonly rq then None else offer_vcodec rq)
      in \<lparr>rid = i, name = name_text rq, date = outstr rq,
          arc_file = (if ac \<noteq> None then Some (recorder_filename (filename_text rq) i ''audio'') else None),
          acodec = ac, audio_pt = fixed_audio_pt ac,
          vrc_file = (if vc \<noteq> None then Some (recorder_filename (filename_text rq) i ''video'') else None),
          vcodec = vc, video_pt = VIDEO_PT,
          offer = None, viewers = [], completed = False, destroyed = False, ref = 2\<rparr>)"

text \<open>
  The result is the error or the id of the new recording, the table, the session and the
  trace; \<open>None\<close> when the loop for the random id does not end.
\<close>

definition record_new ::
  "record_request \<Rightarrow> (nat \<Rightarrow> 64 word) \<Rightarrow> recordings \<Rightarrow> session
     \<Rightarrow> (64 word reply \<times> recordings \<times> session \<times> call list) option" where
  "record_new rq rnd recordings s =
     (let i = (if rec_id rq \<noteq> None then word_of_int (json_integer_value (rec_id rq)) else 0);
          tr = Mutex_lock # (if rec_id rq \<noteq> None \<and> i > 0 then [Hash_table_lookup i] else [])
      in if rec_id rq \<noteq> None \<and> i > 0 \<and> recordings i \<noteq> None
         then Some (Error ERROR_RECORDING_EXISTS (''Recording '' @ decimal (unat i) @ '' already exists''),
                    recordings, s, tr @ [Mutex_unlock])
         else
           (case (if i = 0 then random_id rnd 0 recordings tr else Some (i, tr)) of
              None \<Rightarrow> None
            | Some (i, tr) \<Rightarrow>
                (let r = new_recording rq i;
                     s = s\<lparr>arc := (if acodec r \<noteq> None then arc_file r else arc s),
                            vrc := (if vcodec r \<noteq> None then vrc_file r else vrc s)\<rparr>;
                     s = s\<lparr>recorder := True, recording := Some i, sdp_version := 1,
                            sdp_sessid := real_time rq\<rparr>
                 in Some (Result i, recordings(i \<mapsto> r), s,
                          tr @ [Malloc_recording i]
                             @ (if acodec r \<noteq> None then [Recorder_create (acodec r) (the (arc_file r))] else [])
                             @ (if vcodec r \<noteq> None then [Recorder_create (vcodec r) (the (vrc_file r))] else [])
                             @ [Hash_table_insert i, Mutex_unlock]))))"

subsection \<open>A new playout\<close>

text \<open>\<open>strstr(filename, ".mjr")\<close> and the path of a container, cut to the 1024 bytes of \<open>source\<close>.\<close>

definition strstr :: "string \<Rightarrow> string \<Rightarrow> bool" where
  "strstr haystack needle =
     list_ex (\<lambda>k. take (length needle) (drop k haystack) = needle) [0..<Suc (length haystack)]"

definition source_path :: "string \<Rightarrow> string \<Rightarrow> string" where
  "source_path dir filename =
     take 1023 (if strstr filename ''.mjr'' then dir @ ''/'' @ filename
                else dir @ ''/'' @ filename @ ''.mjr'')"

text \<open>
  \<open>janus_auviousrecordplay_get_frames(dir, filename)\<close> with the files of the disk as
  \<open>fopen\<close>: NULL when a name is missing or the file cannot be opened.
\<close>

definition get_frames_of ::
  "(string \<Rightarrow> mjr_file option) \<Rightarrow> (byte list \<Rightarrow> json option) \<Rightarrow> string option \<Rightarrow> string option
     \<Rightarrow> frames_result option" where
  "get_frames_of fopen json_loads dir filename =
     (case dir of
        None \<Rightarrow> Some (Frames [] None)
      | Some d \<Rightarrow>
          (case filename of
             None \<Rightarrow> Some (Frames [] None)
           | Some fn \<Rightarrow>
               (case fopen (source_path d fn) of
                  None \<Rightarrow> Some (Frames [] None)
                | Some f \<Rightarrow> get_frames json_loads f)))"

record play_result =
  status :: string
  result_id :: "64 word"
  warning :: "string option"

text \<open>
  The list of one track of the recording for the session: the list the session had when
  the recording has no file for the track, else what \<open>get_frames\<close> gives, with the warning
  when that is NULL. \<open>None\<close> when \<open>get_frames\<close> gives no list (it writes past a buffer).
\<close>

definition access_frames ::
  "(string \<Rightarrow> mjr_file option) \<Rightarrow> (byte list \<Rightarrow> json option) \<Rightarrow> string option \<Rightarrow> string option
     \<Rightarrow> string \<Rightarrow> (heap \<times> addr option) \<times> string option \<Rightarrow> ((heap \<times> addr option) \<times> string option) option" where
  "access_frames fopen json_loads dir filename broken sw =
     (if filename = None then Some sw
      else
        (case get_frames_of fopen json_loads dir filename of
           Some (Frames h listp) \<Rightarrow>
             Some (if listp = None then (([], None), Some broken) else ((h, listp), snd sw))
         | _ \<Rightarrow> None))"

text \<open>
  The part of the \<open>play\<close> request that starts a new playout. The result is the error or
  the result of the request, the table and the session.
\<close>

definition play_new ::
  "(string \<Rightarrow> mjr_file option) \<Rightarrow> (byte list \<Rightarrow> json option) \<Rightarrow> string option \<Rightarrow> json option
     \<Rightarrow> recordings \<Rightarrow> session \<Rightarrow> (play_result reply \<times> recordings \<times> session) option" where
  "play_new fopen json_loads recordings_path i recordings s =
     (let id_value = (word_of_int (json_integer_value i) :: 64 word) in
      case recordings id_value of
        None \<Rightarrow> Some (Error ERROR_NOT_FOUND ''No such recording'', recordings, s)
      | Some r \<Rightarrow>
          if offer r = None \<or> destroyed r
          then Some (Error ERROR_NOT_FOUND ''No such recording'', recordings, s)
          else
            (let r = r\<lparr>ref := ref r + 1\<rparr> in
             case access_frames fopen json_loads recordings_path (arc_file r)
                    ''Broken audio file, playing video only'' (aframes s, None) of
               None \<Rightarrow> None
             | Some (af, w) \<Rightarrow>
                 (case access_frames fopen json_loads recordings_path (vrc_file r)
                         ''Broken video file, playing audio only'' (vframes s, w) of
                    None \<Rightarrow> None
                  | Some (vf, w) \<Rightarrow>
                      (let s = s\<lparr>aframes := af, vframes := vf\<rparr> in
                       if snd af = None \<and> snd vf = None
                       then Some (Error ERROR_INVALID_RECORDING ''Error opening recording files'',
                                  recordings(id_value \<mapsto> r), s)
                       else Some (Result \<lparr>status = ''preparing'', result_id = id_value, warning = w\<rparr>,
                                  recordings(id_value \<mapsto> r\<lparr>viewers := viewers r @ [handle s]\<rparr>),
                                  s\<lparr>recording := Some id_value, recorder := False\<rparr>)))))"

section \<open>Container files as the recorder writes them\<close>

text \<open>
  The records of a container, used to write down concrete files: the legacy header (the
  tag \<open>MEETECHO\<close>, the length 5 and \<open>video\<close> or \<open>audio\<close>), the info header (the tag
  \<open>MJR00001\<close>, the length and the JSON text) and a frame (the tag \<open>MEETECHO\<close>, the length
  and the RTP packet). An RTP packet here has version 2, the payload type, sequence
  number, timestamp and SSRC given and the payload after the twelve bytes of its header.
\<close>

definition htons :: "16 word \<Rightarrow> byte list" where
  "htons w = [ucast (drop_bit 8 w), ucast w]"

definition htonl :: "32 word \<Rightarrow> byte list" where
  "htonl w = [ucast (drop_bit 24 w), ucast (drop_bit 16 w), ucast (drop_bit 8 w), ucast w]"

definition rtp_packet :: "byte \<Rightarrow> 16 word \<Rightarrow> 32 word \<Rightarrow> byte list \<Rightarrow> byte list" where
  "rtp_packet pt sq t data = [128, pt] @ htons sq @ htonl t @ htonl 1 @ data"

definition frame_record :: "byte list \<Rightarrow> byte list" where
  "frame_record d = map ch ''MEETECHO'' @ htons (word_of_nat (length d)) @ d"

definition legacy_header :: "bool \<Rightarrow> byte list" where
  "legacy_header vid = map ch ''MEETECHO'' @ htons 5 @ map ch (if vid then ''video'' else ''audio'')"

definition info_record :: "byte list \<Rightarrow> byte list" where
  "info_record text = map ch ''MJR00001'' @ htons (word_of_nat (length text)) @ text"



text \<open>
  A legacy video container whose timestamps restart: 4294967000, then 500, then the late
  packet 300, then 400.
\<close>

definition restart_packets :: "byte list list" where
  "restart_packets =
     [rtp_packet 100 1 4294967000 [1, 2, 3, 4], rtp_packet 100 2 500 [1, 2, 3, 4],
      rtp_packet 100 3 300 [1, 2, 3, 4], rtp_packet 100 4 400 [1, 2, 3, 4]]"

text \<open>
  A container in the current format: the info header with the JSON text of a video
  recording, then the frames. The JSON parser is a parameter of the builder;
  \<open>info_loads\<close> is a parser that knows this one text.
\<close>

definition info_text :: "byte list" where
  "info_text = map ch
     (''{'' @ [CHR 0x22] @ ''t'' @ [CHR 0x22] @ '':'' @ [CHR 0x22] @ ''v'' @ [CHR 0x22] @ '','' @
      [CHR 0x22] @ ''c'' @ [CHR 0x22] @ '':'' @ [CHR 0x22] @ ''vp8'' @ [CHR 0x22] @ '','' @
      [CHR 0x22] @ ''s'' @ [CHR 0x22] @ '':1,'' @ [CHR 0x22] @ ''u'' @ [CHR 0x22] @ '':2}'')"

definition video_info :: json where
  "video_info = JObject [(''t'', JString ''v''), (''c'', JString ''vp8''),
     (''s'', JInteger 1), (''u'', JInteger 2)]"

definition info_loads :: "byte list \<Rightarrow> json option" where
  "info_loads text = (if text = info_text then Some video_info else None)"

definition info_file :: "byte list list \<Rightarrow> mjr_file" where
  "info_file ds = info_record info_text @ concat (map frame_record ds)"

text \<open>
  Three video frames of a recording whose source restarted its timestamps: 1000000000,
  then 3500000000, then 100.
\<close>

definition restarted_video :: "byte list list" where
  "restarted_video =
     [rtp_packet 100 1 1000000000 [1, 2, 3, 4], rtp_packet 100 2 3500000000 [1, 2, 3, 4],
      rtp_packet 100 3 100 [1, 2, 3, 4]]"

text \<open>
  Three video frames of a recording whose timestamps wrap around to exactly 0:
  4294967000, then 0, then 160.
\<close>

definition wrap_to_zero :: "byte list list" where
  "wrap_to_zero =
     [rtp_packet 100 1 4294967000 [1, 2, 3, 4], rtp_packet 100 2 0 [1, 2, 3, 4],
      rtp_packet 100 3 160 [1, 2, 3, 4]]"



definition long_run :: "byte list list" where
  "long_run =
     [rtp_packet 100 0 90000 [1, 2, 3, 4], rtp_packet 100 6000 90000 [5, 6, 7, 8],
      rtp_packet 100 12000 90000 [9, 10, 11, 12]]"

definition wrap_low :: "byte list" where
  "wrap_low = rtp_packet 100 10 90000 [1, 2, 3, 4]"

definition wrap_high :: "byte list" where
  "wrap_high = rtp_packet 100 65530 90000 [5, 6, 7, 8]"

definition wrap_pair_index :: "frame_packet list" where
  "wrap_pair_index =
     [\<lparr>seq = 65530, ts = 90000, len = 16, offset = 51, pnext = Some 0, pprev = None\<rparr>,
      \<lparr>seq = 10, ts = 90000, len = 16, offset = 25, pnext = None, pprev = Some 1\<rparr>]"

text \<open>
  A legacy video container recorded with the payload type 96: three packets with the
  timestamp 90000 and one with the timestamp 93000, with the list the builder makes of it
  (as a store, whose list starts at the address 0, and as the sequence of its packets).
  A legacy audio container recorded with the payload type 111: two packets whose
  timestamps 48000 and 144000 are two seconds apart at 48 kHz, with its list.
\<close>

definition burst_video :: "byte list list" where
  "burst_video =
     [rtp_packet 96 1 90000 [1], rtp_packet 96 2 90000 [2], rtp_packet 96 3 90000 [3],
      rtp_packet 96 4 93000 [4]]"

definition burst_index :: "frame_packet list" where
  "burst_index =
     [\<lparr>seq = 1, ts = 90000, len = 13, offset = 25, pnext = Some 1, pprev = None\<rparr>,
      \<lparr>seq = 2, ts = 90000, len = 13, offset = 48, pnext = Some 2, pprev = Some 0\<rparr>,
      \<lparr>seq = 3, ts = 90000, len = 13, offset = 71, pnext = Some 3, pprev = Some 1\<rparr>,
      \<lparr>seq = 4, ts = 93000, len = 13, offset = 94, pnext = None, pprev = Some 2\<rparr>]"

definition two_seconds_apart :: "byte list list" where
  "two_seconds_apart = [rtp_packet 111 1 48000 [], rtp_packet 111 2 144000 []]"

definition two_seconds_index :: "frame_packet list" where
  "two_seconds_index =
     [\<lparr>seq = 1, ts = 48000, len = 12, offset = 25, pnext = Some 1, pprev = None\<rparr>,
      \<lparr>seq = 2, ts = 144000, len = 12, offset = 47, pnext = None, pprev = Some 0\<rparr>]"
section \<open>What the index is checked against\<close>

text \<open>
  The comparison of the scan, as one predicate: the node \<open>a\<close> is one that a new packet
  \<open>b\<close> is linked after. With equal timestamps that is the comparison of the sequence
  numbers, the plain order when the gap is below 10000 and the reverse order when it is
  above 10000.
\<close>

definition seq_before :: "16 word \<Rightarrow> 16 word \<Rightarrow> bool" where
  "seq_before a b = (a < b \<and> seq_gap a b < 10000 \<or> a > b \<and> seq_gap a b > 10000)"


definition precedes :: "frame_packet \<Rightarrow> frame_packet \<Rightarrow> bool" where
  "precedes a b = (ts a < ts b \<or> ts a = ts b \<and> seq_before (seq a) (seq b))"

text \<open>
  A doubly linked list in the store, as the sequence of the addresses of its nodes:
  every node points back to the node before it (the first one to NULL) and forward to the
  node after it (the last one to NULL); no address occurs twice, so the list is not
  circular; \<open>list\<close> is the first node and \<open>last\<close> the last one.
\<close>

fun head_or :: "addr list \<Rightarrow> addr option \<Rightarrow> addr option" where
  "head_or [] d = d"
| "head_or (a # as) d = Some a"

definition last_or :: "addr list \<Rightarrow> addr option \<Rightarrow> addr option" where
  "last_or as d = (if as = [] then d else Some (last as))"

fun seg :: "heap \<Rightarrow> addr option \<Rightarrow> addr list \<Rightarrow> addr option \<Rightarrow> bool" where
  "seg h pv [] nx = True"
| "seg h pv (a # as) nx =
     (a < length h \<and> pprev (h ! a) = pv \<and> pnext (h ! a) = head_or as nx \<and> seg h (Some a) as nx)"

definition dll :: "heap \<Rightarrow> addr option \<Rightarrow> addr option \<Rightarrow> addr list \<Rightarrow> bool" where
  "dll h listp lastp as =
     (distinct as \<and> seg h None as None \<and> listp = head_or as None \<and> lastp = last_or as None)"

text \<open>The nodes met from a pointer along \<open>next\<close>, at most \<open>n\<close> of them, and their packets.\<close>

fun walk :: "heap \<Rightarrow> addr option \<Rightarrow> nat \<Rightarrow> addr list" where
  "walk h None n = []"
| "walk h (Some a) 0 = []"
| "walk h (Some a) (Suc n) = a # walk h (if a < length h then pnext (h ! a) else None) n"

definition frames_list :: "heap \<Rightarrow> addr option \<Rightarrow> frame_packet list" where
  "frames_list h listp = map ((!) h) (walk h listp (length h))"

text \<open>The fields of a node that linking does not touch.\<close>

definition payload :: "frame_packet \<Rightarrow> 16 word \<times> 64 word \<times> nat \<times> nat" where
  "payload n = (seq n, ts n, len n, offset n)"

definition same_data :: "heap \<Rightarrow> heap \<Rightarrow> bool" where
  "same_data h h' = (length h' = length h \<and> (\<forall>a < length h. payload (h' ! a) = payload (h ! a)))"

text \<open>
  The order kept by the builder: timestamps never decrease along the list, and no node
  is one that its predecessor would have been linked after.
\<close>

definition ordered :: "heap \<Rightarrow> addr list \<Rightarrow> bool" where
  "ordered h as =
     (sorted (map (\<lambda>a. ts (h ! a)) as) \<and> successively (\<lambda>a b. \<not> precedes (h ! b) (h ! a)) as)"

definition index_ok :: "heap \<Rightarrow> addr option \<Rightarrow> addr option \<Rightarrow> addr list \<Rightarrow> bool" where
  "index_ok h listp lastp as = (dll h listp lastp as \<and> set as = {..<length h} \<and> ordered h as)"

text \<open>
  A node agrees with the file: its offset is that of the data of a record, and when the
  first eight bytes of that data are in the file, its sequence number, timestamp and
  length are the ones written there.
\<close>

definition node_ok :: "mjr_file \<Rightarrow> 32 word \<Rightarrow> 32 word \<Rightarrow> frame_packet \<Rightarrow> bool" where
  "node_ok f first rst n =
     (10 \<le> offset n \<and> 12 \<le> len n \<and>
      (offset n + 8 \<le> length f \<longrightarrow>
         seq n = ntohs (f ! (offset n + 2)) (f ! (offset n + 3)) \<and>
         ts n = extended_ts rst first
                  (ntohl (f ! (offset n + 4)) (f ! (offset n + 5)) (f ! (offset n + 6)) (f ! (offset n + 7))) \<and>
         len n = unat (ntohs (f ! (offset n - 2)) (f ! (offset n - 1)))))"

definition index_inv :: "mjr_file \<Rightarrow> 32 word \<Rightarrow> 32 word \<Rightarrow> index_state \<Rightarrow> bool" where
  "index_inv f first rst s =
     (case s of (l, pb, h, listp, lastp) \<Rightarrow>
        (\<exists>as. index_ok h listp lastp as) \<and> (\<forall>n \<in> set h. node_ok f first rst n))"

text \<open>
  A legacy container: the legacy header and then one frame record for each RTP packet.
  What pass 1 finds in such a file is the bookkeeping run over the timestamps of the
  packets, and what pass 2 builds is the insertion of one packet for each of them.
\<close>

definition legacy_file :: "bool \<Rightarrow> byte list list \<Rightarrow> mjr_file" where
  "legacy_file vid ds = legacy_header vid @ concat (map frame_record ds)"

definition sized :: "byte list \<Rightarrow> bool" where
  "sized d = (12 \<le> length d \<and> length d < 65536)"

definition ts_fields :: "scan_state \<Rightarrow> 32 word \<times> 32 word \<times> 32 word" where
  "ts_fields st = (first_ts st, last_ts st, reset st)"

definition track_all :: "32 word list \<Rightarrow> scan_state" where
  "track_all tss = foldl (\<lambda>s t. ts_track t s) scan_init tss"

definition media_packet :: "32 word \<Rightarrow> 32 word \<Rightarrow> nat \<Rightarrow> byte list \<Rightarrow> frame_packet" where
  "media_packet first rst off d =
     \<lparr>seq = rtp_seq_number d, ts = extended_ts rst first (rtp_timestamp d),
       len = length d, offset = off + 10, pnext = None, pprev = None\<rparr>"

fun insert_all ::
  "32 word \<Rightarrow> 32 word \<Rightarrow> nat \<Rightarrow> byte list list \<Rightarrow> heap \<times> addr option \<times> addr option
     \<Rightarrow> (heap \<times> addr option \<times> addr option) option" where
  "insert_all first rst off [] s = Some s"
| "insert_all first rst off (d # ds) s =
     (case s of (h, listp, lastp) \<Rightarrow>
        (case insert_packet h listp lastp (media_packet first rst off d) of
           None \<Rightarrow> None
         | Some s' \<Rightarrow> insert_all first rst (off + 10 + length d) ds s'))"

text \<open>
  The findings of pass 1 on a file (\<open>first_ts\<close> and \<open>reset\<close>), and the packets of the
  index of a file in playing order; \<open>None\<close> when the builder stops before.
\<close>

definition pass1_findings ::
  "(byte list \<Rightarrow> json option) \<Rightarrow> mjr_file \<Rightarrow> (32 word \<times> 32 word) option" where
  "pass1_findings json_loads f =
     (case pass1_loop json_loads f 0 scan_init of
        Next_iter off st \<Rightarrow> Some (first_ts st, reset st)
      | _ \<Rightarrow> None)"

definition index_of :: "(byte list \<Rightarrow> json option) \<Rightarrow> mjr_file \<Rightarrow> frame_packet list option" where
  "index_of json_loads f =
     (case get_frames json_loads f of
        Some (Frames h listp) \<Rightarrow> Some (frames_list h listp)
      | _ \<Rightarrow> None)"

section \<open>The start of the playout thread\<close>

text \<open>
  The thread of a session plays the lists of the session from the files of its recording
  with the payload types of the recording. It ends at once (\<open>Some None\<close>) without a
  recording, for a recorder, without frames and when a file cannot be opened. Then both
  reference times are set, the positions are the heads of the lists and the buffer is 1500
  zero bytes. \<open>None\<close> as for the loop, and for a list without the name of its file.
\<close>

definition playout_thread ::
  "(string \<Rightarrow> mjr_file option) \<Rightarrow> string \<Rightarrow> recordings \<Rightarrow> session \<Rightarrow> timeval
     \<Rightarrow> (bool \<times> timeval \<times> timeval) list \<Rightarrow> (play_event list \<times> play_state) option option" where
  "playout_thread fopen recordings_path recordings s start inputs =
     (case recording s of
        None \<Rightarrow> Some None
      | Some i \<Rightarrow>
          (case recordings i of
             None \<Rightarrow> None
           | Some r \<Rightarrow>
               if recorder s then Some None
               else if snd (aframes s) = None \<and> snd (vframes s) = None then Some None
               else if snd (aframes s) \<noteq> None \<and> arc_file r = None then None
               else if snd (aframes s) \<noteq> None \<and> fopen (source_path recordings_path (the (arc_file r))) = None
               then Some None
               else if snd (vframes s) \<noteq> None \<and> vrc_file r = None then None
               else if snd (vframes s) \<noteq> None \<and> fopen (source_path recordings_path (the (vrc_file r))) = None
               then Some None
               else
                 (let af = (if snd (aframes s) \<noteq> None
                            then the (fopen (source_path recordings_path (the (arc_file r)))) else []);
                      vf = (if snd (vframes s) \<noteq> None
                            then the (fopen (source_path recordings_path (the (vrc_file r)))) else []);
                      al = frames_list (fst (aframes s)) (snd (aframes s));
                      vl = frames_list (fst (vframes s)) (snd (vframes s));
                      st = \<lparr>audio = (if snd (aframes s) = None then None else Some 0),
                            video = (if snd (vframes s) = None then None else Some 0),
                            abefore = start, vbefore = start, asent = False, vsent = False,
                            buffer = replicate 1500 0\<rparr>
                  in map_option Some (playout_loop af al (audio_pt r) vf vl (video_pt r) inputs st))))"

text \<open>What is read for a packet of an index, and the packets from a position with its timestamp.\<close>

definition recorded :: "mjr_file \<Rightarrow> frame_packet \<Rightarrow> byte list" where
  "recorded f p = take (len p) (drop (offset p) f)"

definition same_ts_run :: "frame_packet list \<Rightarrow> nat \<Rightarrow> frame_packet list" where
  "same_ts_run fs i = takeWhile (\<lambda>p. ts p = ts (fs ! i)) (drop i fs)"

text \<open>
  The calls of the rounds \<open>n\<close> up to \<open>k\<close> of the loop for a random id: the random number
  and the lookup of it, round after round.
\<close>

definition draws :: "(nat \<Rightarrow> 64 word) \<Rightarrow> nat \<Rightarrow> nat \<Rightarrow> call list" where
  "draws rnd n k = concat (map (\<lambda>j. [Random_uint64 (rnd j), Hash_table_lookup (rnd j)]) [n..<k])"

text \<open>
  A recording with a video file only, the session of a viewer that has its list, and a
  disk with the file; a recording with an audio file only, whose file is not on the disk.
\<close>

definition video_recording :: recording where
  "video_recording =
     \<lparr>rid = 5, name = Some ''demo'', date = ''2020-01-01 00:00:00'',
       arc_file = None, acodec = None, audio_pt = 111,
       vrc_file = Some ''rec-5-video'', vcodec = Some ''vp8'', video_pt = 100,
       offer = Some ''v=0'', viewers = [], completed = True, destroyed = False, ref = 1\<rparr>"



definition disk :: "string \<Rightarrow> mjr_file option" where
  "disk path = (if path = ''/rec/rec-5-video.mjr'' then Some (legacy_file True burst_video) else None)"

definition new_session :: session where
  "new_session =
     \<lparr>handle = 1, sdp_sessid = 0, sdp_version = 0, recorder = False, recording = None,
       arc = None, vrc = None, aframes = ([], None), vframes = ([], None)\<rparr>"

definition viewer_session :: session where
  "viewer_session = new_session\<lparr>recording := Some 5, vframes := (burst_index, Some 0)\<rparr>"

text \<open>
  A record request with a given \<open>id\<close> field for audio and video, and random numbers
  that start with 0, then 5, then 7 for ever.
\<close>

definition id_request :: "json option \<Rightarrow> record_request" where
  "id_request j =
     \<lparr>rec_id = j, name_text = Some ''demo'', filename_text = None,
       offer_acodec = Some ''opus'', offer_vcodec = Some ''vp8'',
       audio_recvonly = False, video_recvonly = False,
       outstr = ''2020-01-01 00:00:00'', real_time = 0\<rparr>"

definition random_example :: "nat \<Rightarrow> 64 word" where
  "random_example n = (if n = 0 then 0 else if n = 1 then 5 else 7)"

section \<open>The index builder keeps a sorted, well linked list\<close>

lemma last_or_simps [simp]:
  "last_or [] d = d" "last_or (as @ [a]) d = Some a" "last_or [a] d = Some a"
  by (auto simp: last_or_def)

lemma last_or_Cons: "last_or (a # as) d = last_or as (Some a)"
  by (simp add: last_or_def)

lemma head_or_append: "head_or (xs @ ys) d = head_or xs (head_or ys d)"
  by (cases xs) auto

lemma last_or_append: "last_or (xs @ ys) d = last_or ys (last_or xs d)"
  by (auto simp: last_or_def)

lemma seg_append:
  "seg h pv (xs @ ys) nx = (seg h pv xs (head_or ys nx) \<and> seg h (last_or xs pv) ys nx)"
  by (induction xs arbitrary: pv) (auto simp: head_or_append last_or_Cons)

lemma seg_bound: "seg h pv as nx \<Longrightarrow> a \<in> set as \<Longrightarrow> a < length h"
  by (induction as arbitrary: pv) auto

lemma seg_frame:
  "a \<notin> set as \<Longrightarrow> seg (h[a := v]) pv as nx = seg h pv as nx"
  by (induction as arbitrary: pv) auto

lemma payload_links [simp]:
  "payload (n\<lparr>pnext := x\<rparr>) = payload n" "payload (n\<lparr>pprev := y\<rparr>) = payload n"
  by (simp_all add: payload_def)

lemma same_data_refl [simp]: "same_data h h"
  by (simp add: same_data_def)

lemma same_data_trans: "same_data h h1 \<Longrightarrow> same_data h1 h2 \<Longrightarrow> same_data h h2"
  by (simp add: same_data_def)

lemma same_data_upd_next: "same_data h h' \<Longrightarrow> same_data h (h'[a := (h' ! a)\<lparr>pnext := x\<rparr>])"
  by (cases "a < length h'") (auto simp: same_data_def nth_list_update)

lemma same_data_upd_prev: "same_data h h' \<Longrightarrow> same_data h (h'[a := (h' ! a)\<lparr>pprev := x\<rparr>])"
  by (cases "a < length h'") (auto simp: same_data_def nth_list_update)

lemma link_after_ok:
  assumes d: "distinct (pre @ t # post)"
    and s: "seg h None (pre @ t # post) None"
    and p: "p < length h" "p \<notin> set (pre @ t # post)" "pnext (h ! p) = None"
  shows "\<exists>h'. link_after h t p lastp = Some (h', if post = [] then Some p else lastp)
           \<and> seg h' None (pre @ t # p # post) None \<and> same_data h h'"
proof (cases post)
  case Nil
  from s Nil have t: "t < length h" "pprev (h ! t) = last_or pre None" "pnext (h ! t) = None"
    and pre: "seg h None pre (Some t)"
    by (auto simp: seg_append)
  let ?h3 = "h[t := (h ! t)\<lparr>pnext := Some p\<rparr>]"
  let ?h4 = "?h3[p := (?h3 ! p)\<lparr>pprev := Some t\<rparr>]"
  have eq: "link_after h t p lastp = Some (?h4, Some p)"
    using t p by (simp add: link_after_def Let_def)
  have "seg ?h4 None pre (Some t)"
    using pre p d by (simp add: seg_frame)
  moreover have "seg ?h4 (last_or pre None) [t, p] None"
    using t p by (auto simp: nth_list_update)
  ultimately have "seg ?h4 None (pre @ t # p # post) None"
    using Nil by (simp only: seg_append seg.simps head_or.simps last_or_simps)
  moreover have "same_data h ?h4"
    by (intro same_data_upd_prev same_data_upd_next same_data_refl)
  ultimately show ?thesis using eq Nil by simp
next
  case (Cons n post')
  from s Cons have t: "t < length h" "pprev (h ! t) = last_or pre None" "pnext (h ! t) = Some n"
    and pre: "seg h None pre (Some t)"
    and n: "n < length h" "pprev (h ! n) = Some t" "pnext (h ! n) = head_or post' None"
    and post': "seg h (Some n) post' None"
    by (auto simp: seg_append)
  from d p Cons have ne: "n \<noteq> t" "p \<noteq> t" "p \<noteq> n" "t \<notin> set pre" "n \<notin> set pre" "p \<notin> set pre"
    "t \<notin> set post'" "n \<notin> set post'" "p \<notin> set post'"
    by auto
  let ?h1 = "h[n := (h ! n)\<lparr>pprev := Some p\<rparr>]"
  let ?h2 = "?h1[p := (?h1 ! p)\<lparr>pnext := pnext (?h1 ! t)\<rparr>]"
  let ?h3 = "?h2[t := (?h2 ! t)\<lparr>pnext := Some p\<rparr>]"
  let ?h4 = "?h3[p := (?h3 ! p)\<lparr>pprev := Some t\<rparr>]"
  have eq: "link_after h t p lastp = Some (?h4, lastp)"
    using t p n by (simp add: link_after_def Let_def)
  have "seg ?h4 None pre (Some t)"
    using pre ne by (simp add: seg_frame)
  moreover have "seg ?h4 (Some n) post' None"
    using post' ne by (simp add: seg_frame)
  moreover have "seg ?h4 (last_or pre None) [t, p, n] (head_or post' None)"
    using t p n ne by (auto simp: nth_list_update)
  ultimately have "seg ?h4 None (pre @ t # p # post) None"
    using Cons by (simp only: seg_append seg.simps head_or.simps last_or_simps)
  moreover have "same_data h ?h4"
    by (intro same_data_upd_prev same_data_upd_next same_data_refl)
  ultimately show ?thesis using eq Cons by simp
qed

lemma scan_back_None: "scan_back h p lastp None = Some (h, lastp, False)"
  by (subst scan_back.simps) simp

lemma scan_back_Some:
  "t < length h \<Longrightarrow> p < length h \<Longrightarrow>
   scan_back h p lastp (Some t) =
     (if precedes (h ! t) (h ! p) then link_added h t p lastp
      else scan_back h p lastp (pprev (h ! t)))"
  by (subst scan_back.simps) (auto simp: precedes_def seq_before_def Let_def)

lemma scan_back_ok:
  assumes "distinct (pre @ post)" "seg h None (pre @ post) None"
    and "p < length h" "p \<notin> set (pre @ post)" "pnext (h ! p) = None"
    and "\<forall>a \<in> set post. \<not> precedes (h ! a) (h ! p)"
    and "lastp = last_or (pre @ post) None"
  shows "(\<exists>h' pre1 t post1.
            scan_back h p lastp (last_or pre None)
              = Some (h', last_or (pre1 @ t # p # post1) None, True) \<and>
            same_data h h' \<and> pre @ post = pre1 @ t # post1 \<and>
            seg h' None (pre1 @ t # p # post1) None \<and>
            precedes (h ! t) (h ! p) \<and> (\<forall>a \<in> set post1. \<not> precedes (h ! a) (h ! p)))
       \<or> (scan_back h p lastp (last_or pre None) = Some (h, lastp, False) \<and>
            (\<forall>a \<in> set (pre @ post). \<not> precedes (h ! a) (h ! p)))"
  using assms
proof (induction pre arbitrary: post rule: rev_induct)
  case Nil
  then show ?case by (simp add: scan_back_None)
next
  case (snoc t pre)
  from snoc.prems have t: "t < length h"
    by (auto intro: seg_bound)
  show ?case
  proof (cases "precedes (h ! t) (h ! p)")
    case True
    from snoc.prems have "distinct (pre @ t # post)" "seg h None (pre @ t # post) None"
      "p \<notin> set (pre @ t # post)"
      by simp_all
    from link_after_ok [OF this(1,2) \<open>p < length h\<close> this(3) \<open>pnext (h ! p) = None\<close>, of lastp]
    obtain h' where h': "link_after h t p lastp = Some (h', if post = [] then Some p else lastp)"
      "seg h' None (pre @ t # p # post) None" "same_data h h'"
      by blast
    have "(if post = [] then Some p else lastp) = last_or (pre @ t # p # post) None"
      using snoc.prems(7) by (auto simp: last_or_def)
    with h' have "scan_back h p lastp (last_or (pre @ [t]) None)
        = Some (h', last_or (pre @ t # p # post) None, True)"
      using True t snoc.prems(3) by (simp add: scan_back_Some link_added_def)
    with h' True snoc.prems(6) show ?thesis
      by (intro disjI1 exI [of _ h'] exI [of _ pre] exI [of _ t] exI [of _ post]) simp
  next
    case False
    from snoc.prems have pv: "pprev (h ! t) = last_or pre None"
      by (simp add: seg_append)
    have step: "scan_back h p lastp (last_or (pre @ [t]) None)
        = scan_back h p lastp (last_or pre None)"
      using False t snoc.prems(3) pv by (simp add: scan_back_Some)
    have "(\<exists>h' pre1 ta post1.
            scan_back h p lastp (last_or pre None)
              = Some (h', last_or (pre1 @ ta # p # post1) None, True) \<and>
            same_data h h' \<and> pre @ (t # post) = pre1 @ ta # post1 \<and>
            seg h' None (pre1 @ ta # p # post1) None \<and>
            precedes (h ! ta) (h ! p) \<and> (\<forall>a \<in> set post1. \<not> precedes (h ! a) (h ! p)))
       \<or> (scan_back h p lastp (last_or pre None) = Some (h, lastp, False) \<and>
            (\<forall>a \<in> set (pre @ (t # post)). \<not> precedes (h ! a) (h ! p)))"
      using snoc.prems False by (intro snoc.IH) simp_all
    then show ?thesis
      unfolding step by simp
  qed
qed


lemma precedes_payload:
  "payload a = payload a' \<Longrightarrow> payload b = payload b' \<Longrightarrow> precedes a b = precedes a' b'"
  by (simp add: payload_def precedes_def)

lemma precedes_ts: "precedes a b \<Longrightarrow> ts a \<le> ts b"
  by (auto simp: precedes_def)

lemma not_precedes_ts: "\<not> precedes a b \<Longrightarrow> ts b \<le> ts a"
  by (auto simp: precedes_def)

lemma precedes_asym: "precedes a b \<Longrightarrow> \<not> precedes b a"
  by (auto simp: precedes_def seq_before_def seq_gap_def abs_minus_commute)

lemma ordered_cong:
  assumes "\<forall>a \<in> set as. payload (h' ! a) = payload (h ! a)"
  shows "ordered h' as = ordered h as"
proof -
  have m: "map (\<lambda>a. ts (h' ! a)) as = map (\<lambda>a. ts (h ! a)) as"
    using assms by (auto simp: payload_def)
  have "precedes (h' ! b) (h' ! a) = precedes (h ! b) (h ! a)"
    if "a \<in> set as" "b \<in> set as" for a b
    using assms that by (intro precedes_payload) simp_all
  then have su: "successively (\<lambda>a b. \<not> precedes (h' ! b) (h' ! a)) as
      = successively (\<lambda>a b. \<not> precedes (h ! b) (h ! a)) as"
    by (intro successively_cong) simp_all
  show ?thesis by (simp only: ordered_def m su)
qed

lemma ordered_insert:
  assumes o: "ordered h (pre @ post)"
    and pre: "pre = [] \<or> precedes (h ! last pre) (h ! p)"
    and post: "\<forall>a \<in> set post. \<not> precedes (h ! a) (h ! p)"
  shows "ordered h (pre @ p # post)"
proof -
  have s: "sorted (map (\<lambda>a. ts (h ! a)) pre)" "sorted (map (\<lambda>a. ts (h ! a)) post)"
    and su: "successively (\<lambda>a b. \<not> precedes (h ! b) (h ! a)) pre"
      "successively (\<lambda>a b. \<not> precedes (h ! b) (h ! a)) post"
    using o by (auto simp: ordered_def sorted_append successively_append_iff)
  have lo: "ts (h ! a) \<le> ts (h ! p)" if "a \<in> set pre" for a
  proof -
    from that have ne: "pre \<noteq> []" by auto
    with pre have "ts (h ! last pre) \<le> ts (h ! p)" by (auto dest: precedes_ts)
    moreover have "ts (h ! a) \<le> ts (h ! last pre)"
    proof -
      from ne obtain ys y where "pre = ys @ [y]" by (metis rev_exhaust)
      with s(1) that show ?thesis by (auto simp: sorted_append)
    qed
    ultimately show ?thesis by simp
  qed
  have hi: "ts (h ! p) \<le> ts (h ! a)" if "a \<in> set post" for a
    using post that by (auto dest: not_precedes_ts)
  have "ts (h ! x) \<le> ts (h ! y)" if "x \<in> set pre" "y \<in> set post" for x y
    using lo [OF that(1)] hi [OF that(2)] by (rule order_trans)
  then have "sorted (map (\<lambda>a. ts (h ! a)) (pre @ p # post))"
    using s lo hi by (simp add: sorted_append)
  moreover have "successively (\<lambda>a b. \<not> precedes (h ! b) (h ! a)) (pre @ p # post)"
  proof -
    have a: "pre = [] \<or> \<not> precedes (h ! p) (h ! last pre)"
      using pre by (auto dest: precedes_asym)
    have b: "post = [] \<or> \<not> precedes (h ! hd post) (h ! p)"
      using post by (cases post) simp_all
    show ?thesis
      using su a b by (simp add: successively_append_iff successively_Cons)
  qed
  ultimately show ?thesis by (simp add: ordered_def)
qed

lemma seg_heap_append:
  "\<forall>a \<in> set as. a < length h \<Longrightarrow> seg (h @ x) pv as nx = seg h pv as nx"
  by (induction as arbitrary: pv) (auto simp: nth_append)

lemma insert_packet_ok:
  assumes inv: "index_ok h listp lastp as"
    and pk: "pnext pk = None" "pprev pk = None"
  shows "\<exists>h' list' last' as'.
           insert_packet h listp lastp pk = Some (h', list', last') \<and>
           index_ok h' list' last' as' \<and> same_data (h @ [pk]) h'"
proof -
  let ?H = "h @ [pk]"
  let ?p = "length h"
  from inv have d: "distinct as" and sg: "seg h None as None"
    and lp: "listp = head_or as None" "lastp = last_or as None"
    and al: "set as = {..<length h}" and o: "ordered h as"
    by (auto simp: index_ok_def dll_def)
  from al have bnd: "\<forall>a \<in> set as. a < length h" and pn: "?p \<notin> set as"
    by auto
  have sH: "seg ?H None as None"
    using sg bnd by (simp add: seg_heap_append)
  have oH: "ordered ?H as"
    using o bnd ordered_cong [of as ?H h] by (simp add: nth_append)
  have pH: "?p < length ?H" "pnext (?H ! ?p) = None" "pprev (?H ! ?p) = None" "?H ! ?p = pk"
    using pk by simp_all
  show ?thesis
  proof (cases as)
    case Nil
    with lp have "insert_packet h listp lastp pk = Some (?H, Some ?p, Some ?p)"
      by (simp add: insert_packet_def Let_def)
    moreover have "length h = 0"
      using al Nil by auto
    then have "index_ok ?H (Some ?p) (Some ?p) [?p]"
      using pk by (auto simp: index_ok_def dll_def ordered_def)
    ultimately show ?thesis using same_data_refl [of ?H] by blast
  next
    case (Cons a0 rest)
    then have lp0: "listp = Some a0" using lp by simp
    from scan_back_ok [of as "[]" ?H ?p lastp] d sH pn pH(2) lp(2)
    consider
      (added) h' pre1 t post1 where
        "scan_back ?H ?p lastp lastp = Some (h', last_or (pre1 @ t # ?p # post1) None, True)"
        "same_data ?H h'" "as = pre1 @ t # post1"
        "seg h' None (pre1 @ t # ?p # post1) None"
        "precedes (?H ! t) (?H ! ?p)" "\<forall>a \<in> set post1. \<not> precedes (?H ! a) (?H ! ?p)"
      | (head) "scan_back ?H ?p lastp lastp = Some (?H, lastp, False)"
        "\<forall>a \<in> set as. \<not> precedes (?H ! a) (?H ! ?p)"
      by auto
    then show ?thesis
    proof cases
      case added
      let ?as' = "pre1 @ t # ?p # post1"
      have eq: "insert_packet h listp lastp pk = Some (h', listp, last_or ?as' None)"
        using added(1) lp0 by (simp add: insert_packet_def Let_def)
      have len: "length h' = Suc (length h)"
        using added(2) by (simp add: same_data_def)
      have "distinct ?as'"
        using d pn added(3) by auto
      moreover have "listp = head_or ?as' None"
        using lp(1) added(3) by (simp add: head_or_append)
      moreover have "set ?as' = insert ?p (set as)"
        unfolding added(3) by auto
      then have "set ?as' = {..<length h'}"
        unfolding al len by (simp only: lessThan_Suc)
      moreover have "ordered ?H ((pre1 @ [t]) @ ?p # post1)"
        using oH added(3,5,6) by (intro ordered_insert) simp_all
      then have "ordered h' ?as'"
        using added(2) \<open>set ?as' = {..<length h'}\<close> len ordered_cong [of ?as' h' ?H]
        by (simp add: same_data_def)
      ultimately have "index_ok h' listp (last_or ?as' None) ?as'"
        using added(4) by (simp add: index_ok_def dll_def)
      with eq added(2) show ?thesis by blast
    next
      case head
      let ?h1 = "?H[?p := (?H ! ?p)\<lparr>pnext := listp\<rparr>]"
      let ?h2 = "?h1[a0 := (?h1 ! a0)\<lparr>pprev := Some ?p\<rparr>]"
      let ?as' = "?p # as"
      from bnd Cons have a0: "a0 < length h" "a0 \<noteq> ?p" by auto
      have eq: "insert_packet h listp lastp pk = Some (?h2, Some ?p, lastp)"
        using head(1) lp0 a0 by (simp add: insert_packet_def Let_def)
      have sd: "same_data ?H ?h2"
        by (intro same_data_upd_prev same_data_upd_next same_data_refl)
      from sH Cons have r: "seg ?H (Some a0) rest None" "pnext (?H ! a0) = head_or rest None"
        by simp_all
      from d Cons pn have nr: "a0 \<notin> set rest" "?p \<notin> set rest" by auto
      have "seg ?h2 (Some a0) rest None"
        by (simp only: seg_frame [OF nr(1)] seg_frame [OF nr(2)] r(1))
      moreover have "pprev (?h2 ! ?p) = None" "pnext (?h2 ! ?p) = Some a0"
        "pprev (?h2 ! a0) = Some ?p" "pnext (?h2 ! a0) = head_or rest None"
        using a0 pk lp0 r(2) by (simp_all add: nth_list_update nth_append)
      ultimately have "seg ?h2 None ?as' None"
        using a0 Cons by simp
      moreover have "distinct ?as'" using d pn by simp
      moreover have "lastp = last_or ?as' None"
        using lp(2) Cons by (simp add: last_or_def)
      moreover have "set ?as' = {..<length ?h2}"
        unfolding al list.set by (simp add: lessThan_Suc)
      moreover have "ordered ?H ([] @ ?p # as)"
        using oH head(2) by (intro ordered_insert) simp_all
      then have "ordered ?h2 ?as'"
        using sd \<open>set ?as' = {..<length ?h2}\<close> ordered_cong [of ?as' ?h2 ?H]
        by (simp add: same_data_def)
      ultimately have "index_ok ?h2 (Some ?p) lastp ?as'"
        by (simp add: index_ok_def dll_def)
      with eq sd show ?thesis by blast
    qed
  qed
qed


lemma fread_fst: "fst (fread f pos n buf) = min n (length f - pos)"
  by (simp add: fread_def Let_def)

lemma fread_nth:
  "i < n \<Longrightarrow> pos + i < length f \<Longrightarrow> snd (fread f pos n buf) ! i = f ! (pos + i)"
  by (auto simp: fread_def Let_def nth_append)

lemma take2_drop:
  "pos + 2 \<le> length f \<Longrightarrow> take 2 (drop pos f) = [f ! pos, f ! Suc pos]"
proof -
  assume a: "pos + 2 \<le> length f"
  then have "drop pos f = f ! pos # f ! Suc pos # drop (Suc (Suc pos)) f"
    by (simp add: Cons_nth_drop_Suc)
  then show ?thesis by (simp add: numeral_2_eq_2)
qed

lemma fread_len_full:
  "pos + 2 \<le> length f \<Longrightarrow> fread_len f pos old = (ntohs (f ! pos) (f ! Suc pos), pos + 2)"
  by (simp add: fread_len_def take2_drop)

lemma node_ok_payload: "payload n = payload m \<Longrightarrow> node_ok f first rst n = node_ok f first rst m"
  by (simp add: node_ok_def payload_def)

lemma pass2_step_unfold:
  "\<exists>l pb off'.
     pass2_step f first rst off (l0, pb0, h, listp, lastp) = Some (off', (l, pb, h, listp, lastp)) \<or>
     (\<exists>pk. pnext pk = None \<and> pprev pk = None \<and> node_ok f first rst pk \<and>
        pass2_step f first rst off (l0, pb0, h, listp, lastp) =
          (case insert_packet h listp lastp pk of
             None \<Rightarrow> None
           | Some (h', list', last') \<Rightarrow> Some (off', (l, pb, h', list', last'))))"
proof -
  obtain bytes pb1 where r1: "fread f off 8 pb0 = (bytes, pb1)" by (cases "fread f off 8 pb0")
  obtain l pos where r2: "fread_len f (off + bytes) l0 = (l, pos)"
    by (cases "fread_len f (off + bytes) l0")
  let ?pb = "pb1[8 := 0]"
  obtain bytes' pb2 where r3: "fread f pos 16 ?pb = (bytes', pb2)" by (cases "fread f pos 16 ?pb")
  show ?thesis
  proof (cases "?pb ! 1 = ch CHR ''J'' \<or> l < 12")
    case True
    then show ?thesis
      using r1 r2 by (auto simp: pass2_step_def Let_def)
  next
    case False
    let ?pk = "\<lparr>seq = rtp_seq_number pb2, ts = extended_ts rst first (rtp_timestamp pb2),
                len = unat l, offset = off + 10, pnext = None, pprev = None\<rparr>"
    have eq: "pass2_step f first rst off (l0, pb0, h, listp, lastp) =
        (case insert_packet h listp lastp ?pk of
             None \<Rightarrow> None
           | Some (h', list', last') \<Rightarrow> Some (off + 10 + unat l, (l, pb2, h', list', last')))"
      using False r1 r2 r3 by (simp add: pass2_step_def Let_def)
    have "node_ok f first rst ?pk"
    proof -
      have l12: "12 \<le> unat l" using False by (simp add: word_less_nat_alt not_less)
      have full: "seq ?pk = ntohs (f ! (off + 12)) (f ! (off + 13)) \<and>
         ts ?pk = extended_ts rst first
                  (ntohl (f ! (off + 14)) (f ! (off + 15)) (f ! (off + 16)) (f ! (off + 17))) \<and>
         len ?pk = unat (ntohs (f ! (off + 8)) (f ! (off + 9)))" if a: "off + 18 \<le> length f"
      proof -
        from a r1 fread_fst [of f off 8 pb0] have b: "bytes = 8" by simp
        with a r2 have "l = ntohs (f ! (off + 8)) (f ! (off + 9))" "pos = off + 10"
          by (auto simp: fread_len_full add.commute)
        moreover have "pb2 ! i = f ! (off + 10 + i)" if "i < 8" for i
          using fread_nth [of i 16 pos f ?pb] r3 that a \<open>pos = off + 10\<close> by simp
        ultimately show ?thesis
          by (simp add: rtp_seq_number_def rtp_timestamp_def add.assoc)
      qed
      show ?thesis
        using l12 full by (simp add: node_ok_def ac_simps)
    qed
    with eq show ?thesis by (intro exI [of _ l] exI [of _ pb2] exI [of _ "off + 10 + unat l"] disjI2 exI [of _ ?pk]) simp
  qed
qed


lemma same_data_node_ok:
  assumes "same_data h h'" "\<forall>n \<in> set h. node_ok f first rst n"
  shows "\<forall>n \<in> set h'. node_ok f first rst n"
proof
  fix n assume "n \<in> set h'"
  then obtain a where a: "a < length h'" "n = h' ! a" by (auto simp: in_set_conv_nth)
  with assms(1) have "payload n = payload (h ! a)" "a < length h"
    by (simp_all add: same_data_def)
  with assms(2) show "node_ok f first rst n"
    using node_ok_payload [of n "h ! a"] by simp
qed

lemma pass2_step_ok:
  assumes "index_inv f first rst s"
  shows "\<exists>off' s'. pass2_step f first rst off s = Some (off', s') \<and> index_inv f first rst s'"
proof -
  obtain l0 pb0 h listp lastp where s: "s = (l0, pb0, h, listp, lastp)"
    by (cases s)
  from assms s obtain as where inv: "index_ok h listp lastp as"
    and nodes: "\<forall>n \<in> set h. node_ok f first rst n"
    by (auto simp: index_inv_def)
  from pass2_step_unfold [of f first rst off l0 pb0 h listp lastp]
  obtain l pb off' where
    "pass2_step f first rst off s = Some (off', (l, pb, h, listp, lastp)) \<or>
     (\<exists>pk. pnext pk = None \<and> pprev pk = None \<and> node_ok f first rst pk \<and>
        pass2_step f first rst off s =
          (case insert_packet h listp lastp pk of
             None \<Rightarrow> None
           | Some (h', list', last') \<Rightarrow> Some (off', (l, pb, h', list', last'))))"
    unfolding s by blast
  then show ?thesis
  proof
    assume "pass2_step f first rst off s = Some (off', (l, pb, h, listp, lastp))"
    then show ?thesis using inv nodes by (auto simp: index_inv_def)
  next
    assume "\<exists>pk. pnext pk = None \<and> pprev pk = None \<and> node_ok f first rst pk \<and>
        pass2_step f first rst off s =
          (case insert_packet h listp lastp pk of
             None \<Rightarrow> None
           | Some (h', list', last') \<Rightarrow> Some (off', (l, pb, h', list', last')))"
    then obtain pk where pk: "pnext pk = None" "pprev pk = None" "node_ok f first rst pk"
      and eq: "pass2_step f first rst off s =
          (case insert_packet h listp lastp pk of
             None \<Rightarrow> None
           | Some (h', list', last') \<Rightarrow> Some (off', (l, pb, h', list', last')))"
      by blast
    from insert_packet_ok [OF inv pk(1,2)] obtain h' list' last' as' where
      ins: "insert_packet h listp lastp pk = Some (h', list', last')"
      "index_ok h' list' last' as'" "same_data (h @ [pk]) h'"
      by blast
    have "\<forall>n \<in> set (h @ [pk]). node_ok f first rst n"
      using nodes pk(3) by simp
    with ins(3) have "\<forall>n \<in> set h'. node_ok f first rst n"
      by (rule same_data_node_ok)
    with ins(1,2) eq show ?thesis
      by (auto simp: index_inv_def)
  qed
qed

lemma pass2_loop_ok:
  "index_inv f first rst s \<Longrightarrow>
   \<exists>s'. pass2_loop f first rst off s = Some s' \<and> index_inv f first rst s'"
proof (induction f first rst off s rule: pass2_loop.induct)
  case (1 f first rst off s)
  show ?case
  proof (cases "off < length f")
    case True
    from pass2_step_ok [OF "1.prems", of off] obtain off' s' where
      st: "pass2_step f first rst off s = Some (off', s')" "index_inv f first rst s'"
      by blast
    from "1.IH" [OF True st(1) refl st(2)] obtain s'' where
      "pass2_loop f first rst off' s' = Some s''" "index_inv f first rst s''"
      by blast
    with True st(1) show ?thesis
      by (subst pass2_loop.simps) simp
  next
    case False
    with "1.prems" show ?thesis
      by (subst pass2_loop.simps) simp
  qed
qed

lemma index_inv_init: "index_inv f first rst (l, pb, [], None, None)"
  by (auto simp: index_inv_def index_ok_def dll_def ordered_def intro: exI [of _ "[]"])

lemma get_frames_cases:
  "get_frames json_loads f = Some Buffer_overrun \<and>
     pass1_loop json_loads f 0 scan_init = Buffer_overflow
   \<or> get_frames json_loads f = Some (Frames [] None) \<and>
     pass1_loop json_loads f 0 scan_init = Return_NULL
   \<or> (\<exists>off st h listp lastp as.
        pass1_loop json_loads f 0 scan_init = Next_iter off st \<and>
        get_frames json_loads f = Some (Frames h listp) \<and>
        index_ok h listp lastp as \<and>
        (\<forall>n \<in> set h. node_ok f (first_ts st) (reset st) n))"
proof (cases "pass1_loop json_loads f 0 scan_init")
  case Return_NULL
  then show ?thesis by (simp add: get_frames_def)
next
  case Buffer_overflow
  then show ?thesis by (simp add: get_frames_def)
next
  case (Next_iter off st)
  from pass2_loop_ok [of f "first_ts st" "reset st" "(rlen st, prebuffer st, [], None, None)" 0]
    index_inv_init [of f "first_ts st" "reset st" "rlen st" "prebuffer st"]
  obtain s' where s': "pass2_loop f (first_ts st) (reset st) 0 (rlen st, prebuffer st, [], None, None) = Some s'"
    "index_inv f (first_ts st) (reset st) s'"
    by blast
  obtain l pb h listp lastp where "s' = (l, pb, h, listp, lastp)" by (cases s')
  with s' Next_iter show ?thesis
    by (auto simp: get_frames_def index_inv_def)
qed

lemma walk_seg:
  "seg h pv as None \<Longrightarrow> length as \<le> n \<Longrightarrow> walk h (head_or as None) n = as"
proof (induction as arbitrary: pv n)
  case Nil
  then show ?case by simp
next
  case (Cons a as)
  then obtain m where "n = Suc m" by (cases n) auto
  with Cons show ?case by auto
qed

lemma index_ok_walk:
  assumes "index_ok h listp lastp as"
  shows "walk h listp (length h) = as"
proof -
  from assms have "distinct as" "set as = {..<length h}" "seg h None as None" "listp = head_or as None"
    by (auto simp: index_ok_def dll_def)
  moreover from this(1,2) have "length as = length h"
    by (metis card_lessThan distinct_card)
  ultimately show ?thesis by (simp add: walk_seg)
qed


section \<open>Legacy containers, record by record\<close>

lemma ntohs_htons: "ntohs (ucast (drop_bit 8 w)) (ucast w) = w"
proof -
  have b: "unat w < 65536" using unsigned_less [of w, where 'a=nat] by simp
  have "unat (ucast (drop_bit 8 w) :: 8 word) = unat w div 256"
    using b by (simp add: unsigned_ucast_eq unat_drop_bit_eq drop_bit_eq_div take_bit_eq_mod unat_div)
  moreover have "unat (ucast w :: 8 word) = unat w mod 256"
    by (simp add: unsigned_ucast_eq take_bit_eq_mod)
  ultimately show ?thesis
    by (simp add: ntohs_def)
qed

lemma ntohl_htonl:
  "ntohl (ucast (drop_bit 24 w)) (ucast (drop_bit 16 w)) (ucast (drop_bit 8 w)) (ucast w) = w"
proof -
  have b: "unat w < 4294967296" using unsigned_less [of w, where 'a=nat] by simp
  have 1: "unat (ucast (drop_bit 24 w) :: 8 word) = unat w div 16777216"
    using b by (simp add: unsigned_ucast_eq unat_drop_bit_eq drop_bit_eq_div take_bit_eq_mod unat_div)
  have 2: "unat (ucast (drop_bit 16 w) :: 8 word) = unat w div 65536 mod 256"
    by (simp add: unsigned_ucast_eq unat_drop_bit_eq drop_bit_eq_div take_bit_eq_mod unat_div)
  have 3: "unat (ucast (drop_bit 8 w) :: 8 word) = unat w div 256 mod 256"
    by (simp add: unsigned_ucast_eq unat_drop_bit_eq drop_bit_eq_div take_bit_eq_mod unat_div)
  have 4: "unat (ucast w :: 8 word) = unat w mod 256"
    by (simp add: unsigned_ucast_eq take_bit_eq_mod)
  have "unat w div 16777216 * 16777216 + unat w div 65536 mod 256 * 65536
      + unat w div 256 mod 256 * 256 + unat w mod 256 = unat w"
  proof -
    define n where "n = unat w"
    have a: "n div 65536 = n div 256 div 256" "n div 16777216 = n div 256 div 256 div 256"
      by (simp_all add: div_mult2_eq [symmetric])
    have e1: "n mod 256 + 256 * (n div 256) = n" by simp
    have e2: "n div 256 mod 256 + 256 * (n div 256 div 256) = n div 256" by simp
    have e3: "n div 256 div 256 mod 256 + 256 * (n div 256 div 256 div 256) = n div 256 div 256"
      by simp
    from e1 e2 e3 have "n div 256 div 256 div 256 * 16777216 + n div 256 div 256 mod 256 * 65536
        + n div 256 mod 256 * 256 + n mod 256 = n"
      by linarith
    then show ?thesis
      unfolding n_def [symmetric] a by simp
  qed
  then show ?thesis
    by (simp add: ntohl_def 1 2 3 4)
qed

lemma length_frame_record: "length (frame_record d) = 10 + length d"
  by (simp add: frame_record_def htons_def)

lemma nth_ch_magic: "ch CHR ''E'' \<noteq> ch CHR ''J''" "ch CHR ''M'' = 77" "ch CHR ''E'' = 69"
  by (simp_all add: ch_def)

lemma rtp_fields_prefix:
  assumes "12 \<le> length d"
  shows "rtp_timestamp (take 16 d @ xs) = rtp_timestamp d"
    and "rtp_seq_number (take 16 d @ xs) = rtp_seq_number d"
  using assms by (simp_all add: rtp_timestamp_def rtp_seq_number_def nth_append)

lemma fread_frame_header:
  "fread (pre @ frame_record d @ rest) (length pre) 8 pb = (8, map ch ''MEETECHO'' @ drop 8 pb)"
proof -
  have e: "Suc (Suc (Suc (Suc (Suc (Suc (Suc (Suc 0))))))) = 8" by simp
  show ?thesis by (simp add: fread_def frame_record_def e)
qed

lemma fread_len_frame:
  "fread_len (pre @ frame_record d @ rest) (length pre + 8) old
     = (word_of_nat (length d), length pre + 10)"
  by (simp add: fread_len_def frame_record_def htons_def ntohs_htons)

lemma fread_frame_rtp:
  "fread (pre @ frame_record d @ rest) (length pre + 10) 16 pb
     = (length (take 16 (d @ rest)), take 16 (d @ rest) @ drop (length (take 16 (d @ rest))) pb)"
  by (simp add: fread_def frame_record_def htons_def Let_def)

lemma sized_word:
  assumes "12 \<le> length d" "length d < 65536"
  shows "unat (word_of_nat (length d) :: 16 word) = length d"
    and "\<not> (word_of_nat (length d) :: 16 word) < 12"
    and "(word_of_nat (length d) :: 16 word) \<noteq> 5"
proof -
  show u: "unat (word_of_nat (length d) :: 16 word) = length d"
    using assms(2) by (simp add: unat_of_nat)
  from u assms(1) show "\<not> (word_of_nat (length d) :: 16 word) < 12"
    by (simp add: word_less_nat_alt)
  from u assms(1) show "(word_of_nat (length d) :: 16 word) \<noteq> 5"
    by auto
qed

lemma pass1_step_frame:
  assumes "parsed_header st" "12 \<le> length d" "length d < 65536"
  shows "\<exists>pb. pass1_step jl (pre @ frame_record d @ rest) (length pre) st =
         Next_iter (length pre + 10 + length d)
           (ts_track (rtp_timestamp d) (st\<lparr>rlen := word_of_nat (length d), prebuffer := pb\<rparr>))"
  using assms(1) sized_word [OF assms(2,3)] assms(2)
  by (auto simp: pass1_step_def pass1_rtp_def Let_def fread_frame_header fread_len_frame
      fread_frame_rtp rtp_fields_prefix ch_def)

lemma pass2_step_frame:
  assumes "12 \<le> length d" "length d < 65536"
  shows "\<exists>pb. pass2_step (pre @ frame_record d @ rest) first rst (length pre) (l0, pb0, h, li, la) =
     (case insert_packet h li la
        \<lparr>seq = rtp_seq_number d, ts = extended_ts rst first (rtp_timestamp d),
          len = length d, offset = length pre + 10, pnext = None, pprev = None\<rparr> of
        None \<Rightarrow> None
      | Some (h', li', la') \<Rightarrow>
          Some (length pre + 10 + length d, (word_of_nat (length d), pb, h', li', la')))"
  using sized_word [OF assms] assms(1)
  by (auto simp: pass2_step_def Let_def fread_frame_header fread_len_frame
      fread_frame_rtp rtp_fields_prefix ch_def split: option.splits)

lemma ts_track_parsed [simp]: "parsed_header (ts_track t st) = parsed_header st"
  by (simp add: ts_track_def Let_def)

lemma ts_fields_track:
  "ts_fields a = ts_fields b \<Longrightarrow> ts_fields (ts_track t a) = ts_fields (ts_track t b)"
  by (simp add: ts_fields_def ts_track_def Let_def)

lemma ts_fields_foldl:
  "ts_fields a = ts_fields b \<Longrightarrow>
   ts_fields (foldl (\<lambda>s t. ts_track t s) a tss) = ts_fields (foldl (\<lambda>s t. ts_track t s) b tss)"
proof (induction tss arbitrary: a b)
  case Nil
  then show ?case by simp
next
  case (Cons t tss)
  from Cons.prems have "ts_fields (ts_track t a) = ts_fields (ts_track t b)"
    by (rule ts_fields_track)
  then show ?case
    unfolding foldl_Cons by (rule Cons.IH)
qed

lemma ts_fields_upd [simp]:
  "ts_fields (st\<lparr>rlen := l, prebuffer := pb\<rparr>) = ts_fields st"
  "ts_fields (st\<lparr>parsed_header := b, rlen := l, prebuffer := pb\<rparr>) = ts_fields st"
  by (simp_all add: ts_fields_def)

lemma pass1_frames:
  assumes "parsed_header st" "\<forall>d \<in> set ds. sized d"
  shows "\<exists>st'. pass1_loop jl (pre @ concat (map frame_record ds)) (length pre) st
            = Next_iter (length pre + length (concat (map frame_record ds))) st' \<and>
          ts_fields st' = ts_fields (foldl (\<lambda>s t. ts_track t s) st (map rtp_timestamp ds))"
  using assms
proof (induction ds arbitrary: pre st)
  case Nil
  then show ?case by (subst pass1_loop.simps) simp
next
  case (Cons d ds)
  let ?f = "pre @ concat (map frame_record (d # ds))"
  from Cons.prems have sz: "12 \<le> length d" "length d < 65536"
    by (simp_all add: sized_def)
  from pass1_step_frame [OF Cons.prems(1) sz, of jl pre "concat (map frame_record ds)"]
  obtain pb where step: "pass1_step jl ?f (length pre) st =
     Next_iter (length pre + 10 + length d)
       (ts_track (rtp_timestamp d) (st\<lparr>rlen := word_of_nat (length d), prebuffer := pb\<rparr>))"
    by auto
  let ?st1 = "ts_track (rtp_timestamp d) (st\<lparr>rlen := word_of_nat (length d), prebuffer := pb\<rparr>)"
  have p1: "parsed_header ?st1" using Cons.prems(1) by simp
  from Cons.IH [OF p1, of "pre @ frame_record d"] Cons.prems(2)
  obtain st' where st': "pass1_loop jl ?f (length pre + 10 + length d) ?st1
       = Next_iter (length pre + length (concat (map frame_record (d # ds)))) st'"
    "ts_fields st' = ts_fields (foldl (\<lambda>s t. ts_track t s) ?st1 (map rtp_timestamp ds))"
    by (auto simp: length_frame_record add.assoc)
  have "ts_fields ?st1 = ts_fields (ts_track (rtp_timestamp d) st)"
    by (rule ts_fields_track) simp
  then have "ts_fields (foldl (\<lambda>s t. ts_track t s) ?st1 (map rtp_timestamp ds))
      = ts_fields (foldl (\<lambda>s t. ts_track t s) (ts_track (rtp_timestamp d) st) (map rtp_timestamp ds))"
    by (rule ts_fields_foldl)
  then have "ts_fields (foldl (\<lambda>s t. ts_track t s) ?st1 (map rtp_timestamp ds))
      = ts_fields (foldl (\<lambda>s t. ts_track t s) st (map rtp_timestamp (d # ds)))"
    by simp
  moreover have "length pre < length ?f"
    by (simp add: length_frame_record)
  ultimately show ?case
    using step st' by (subst pass1_loop.simps) simp
qed

lemma pass1_step_legacy_header:
  "\<exists>pb. pass1_step jl (legacy_header v @ rest) 0 scan_init =
     Next_iter 15 (scan_init\<lparr>parsed_header := True, rlen := 5, prebuffer := pb\<rparr>)"
proof -
  have e: "Suc (Suc (Suc (Suc (Suc (Suc (Suc (Suc 0))))))) = 8" by simp
  have h: "fread (legacy_header v @ rest) 0 8 pb = (8, map ch ''MEETECHO'' @ drop 8 pb)" for pb
    by (simp add: fread_def legacy_header_def e)
  have l: "fread_len (legacy_header v @ rest) 8 old = (5, 10)" for old
    by (simp add: fread_len_def legacy_header_def htons_def ntohs_def)
  have r: "snd (fread (legacy_header v @ rest) 10 5 pb) ! 0 = (if v then ch CHR ''v'' else ch CHR ''a'')" for pb
    by (simp add: fread_def legacy_header_def htons_def)
  obtain n pb where f: "fread (legacy_header v @ rest) 10 5 (map ch ''MEETECHO'' @ drop 8 (prebuffer scan_init)) = (n, pb)"
    by (cases "fread (legacy_header v @ rest) 10 5 (map ch ''MEETECHO'' @ drop 8 (prebuffer scan_init))")
  with r [of "map ch ''MEETECHO'' @ drop 8 (prebuffer scan_init)"]
  have "pb ! 0 = (if v then ch CHR ''v'' else ch CHR ''a'')" by simp
  moreover have "\<not> parsed_header scan_init" "rlen scan_init = 0" by (simp_all add: scan_init_def)
  ultimately have "pass1_step jl (legacy_header v @ rest) 0 scan_init =
     Next_iter 15 (scan_init\<lparr>parsed_header := True, rlen := 5, prebuffer := pb\<rparr>)"
    using f by (simp add: pass1_step_def h l Let_def ch_def)
  then show ?thesis ..
qed

lemma length_legacy_header: "length (legacy_header v) = 15"
  by (simp add: legacy_header_def htons_def)

lemma pass1_legacy:
  assumes "\<forall>d \<in> set ds. sized d"
  shows "\<exists>st'. pass1_loop jl (legacy_file v ds) 0 scan_init
            = Next_iter (length (legacy_file v ds)) st' \<and>
          ts_fields st' = ts_fields (track_all (map rtp_timestamp ds))"
proof -
  from pass1_step_legacy_header [of jl v "concat (map frame_record ds)"]
  obtain pb where step: "pass1_step jl (legacy_file v ds) 0 scan_init =
     Next_iter 15 (scan_init\<lparr>parsed_header := True, rlen := 5, prebuffer := pb\<rparr>)"
    by (auto simp: legacy_file_def)
  let ?st0 = "scan_init\<lparr>parsed_header := True, rlen := 5, prebuffer := pb\<rparr>"
  from pass1_frames [of ?st0 ds jl "legacy_header v"] assms
  obtain st' where st': "pass1_loop jl (legacy_file v ds) 15 ?st0
            = Next_iter (length (legacy_file v ds)) st'"
     "ts_fields st' = ts_fields (foldl (\<lambda>s t. ts_track t s) ?st0 (map rtp_timestamp ds))"
    by (auto simp: legacy_file_def length_legacy_header)
  have "ts_fields ?st0 = ts_fields scan_init" by (simp add: ts_fields_def)
  then have "ts_fields (foldl (\<lambda>s t. ts_track t s) ?st0 (map rtp_timestamp ds))
     = ts_fields (track_all (map rtp_timestamp ds))"
    unfolding track_all_def by (rule ts_fields_foldl)
  moreover have "0 < length (legacy_file v ds)"
    by (simp add: legacy_file_def length_legacy_header)
  ultimately show ?thesis
    using step st' by (subst pass1_loop.simps) simp
qed

lemma pass2_frames:
  assumes "\<forall>d \<in> set ds. sized d"
  shows "(insert_all first rst (length pre) ds (h, li, la) = None \<and>
          pass2_loop (pre @ concat (map frame_record ds)) first rst (length pre) (l0, pb0, h, li, la) = None)
       \<or> (\<exists>l pb h' li' la'.
            insert_all first rst (length pre) ds (h, li, la) = Some (h', li', la') \<and>
            pass2_loop (pre @ concat (map frame_record ds)) first rst (length pre) (l0, pb0, h, li, la)
              = Some (l, pb, h', li', la'))"
  using assms
proof (induction ds arbitrary: pre l0 pb0 h li la)
  case Nil
  then show ?case by (subst pass2_loop.simps) simp
next
  case (Cons d ds)
  let ?f = "pre @ concat (map frame_record (d # ds))"
  from Cons.prems have sz: "12 \<le> length d" "length d < 65536"
    by (simp_all add: sized_def)
  have lt: "length pre < length ?f"
    by (simp add: length_frame_record)
  from pass2_step_frame [OF sz, of pre "concat (map frame_record ds)" first rst l0 pb0 h li la]
  obtain pb where step: "pass2_step ?f first rst (length pre) (l0, pb0, h, li, la) =
     (case insert_packet h li la (media_packet first rst (length pre) d) of
        None \<Rightarrow> None
      | Some (h', li', la') \<Rightarrow>
          Some (length pre + 10 + length d, (word_of_nat (length d), pb, h', li', la')))"
    by (auto simp: media_packet_def)
  show ?case
  proof (cases "insert_packet h li la (media_packet first rst (length pre) d)")
    case None
    with step lt show ?thesis
      by (subst pass2_loop.simps) simp
  next
    case (Some s')
    obtain h' li' la' where s': "s' = (h', li', la')" by (cases s')
    from Cons.IH [of "pre @ frame_record d" h' li' la' "word_of_nat (length d)" pb]
      Cons.prems
    have "(insert_all first rst (length pre + 10 + length d) ds (h', li', la') = None \<and>
          pass2_loop ?f first rst (length pre + 10 + length d) (word_of_nat (length d), pb, h', li', la') = None)
       \<or> (\<exists>l pb' h'' li'' la''.
            insert_all first rst (length pre + 10 + length d) ds (h', li', la') = Some (h'', li'', la'') \<and>
            pass2_loop ?f first rst (length pre + 10 + length d) (word_of_nat (length d), pb, h', li', la')
              = Some (l, pb', h'', li'', la''))"
      by (simp add: length_frame_record add.assoc)
    with step lt Some s' show ?thesis
      by (subst (1 2) pass2_loop.simps) simp
  qed
qed

lemma pass2_step_legacy_header:
  "\<exists>pb. pass2_step (legacy_header v @ rest) first rst 0 (l0, pb0, h, li, la)
     = Some (15, (5, pb, h, li, la))"
proof -
  have e: "Suc (Suc (Suc (Suc (Suc (Suc (Suc (Suc 0))))))) = 8" by simp
  have h: "fread (legacy_header v @ rest) 0 8 pb = (8, map ch ''MEETECHO'' @ drop 8 pb)" for pb
    by (simp add: fread_def legacy_header_def e)
  have l: "fread_len (legacy_header v @ rest) 8 old = (5, 10)" for old
    by (simp add: fread_len_def legacy_header_def htons_def ntohs_def)
  show ?thesis
    by (simp add: pass2_step_def h l Let_def ch_def)
qed

lemma get_frames_legacy:
  assumes "\<forall>d \<in> set ds. sized d"
  shows "get_frames jl (legacy_file v ds) =
     (case insert_all (first_ts (track_all (map rtp_timestamp ds)))
             (reset (track_all (map rtp_timestamp ds))) 15 ds ([], None, None) of
        None \<Rightarrow> None
      | Some (h, listp, lastp) \<Rightarrow> Some (Frames h listp))"
proof -
  let ?T = "track_all (map rtp_timestamp ds)"
  let ?f = "legacy_file v ds"
  from pass1_legacy [OF assms, of jl v] obtain st' where
    p1: "pass1_loop jl ?f 0 scan_init = Next_iter (length ?f) st'"
    and tf: "first_ts st' = first_ts ?T" "reset st' = reset ?T"
    by (auto simp: ts_fields_def)
  from pass2_step_legacy_header [of v "concat (map frame_record ds)" "first_ts ?T" "reset ?T"
      "rlen st'" "prebuffer st'" "[]" None None]
  obtain pb where hd: "pass2_step ?f (first_ts ?T) (reset ?T) 0 (rlen st', prebuffer st', [], None, None)
     = Some (15, (5, pb, [], None, None))"
    by (auto simp: legacy_file_def)
  have lt: "0 < length ?f"
    by (simp add: legacy_file_def length_legacy_header)
  have start: "pass2_loop ?f (first_ts ?T) (reset ?T) 0 (rlen st', prebuffer st', [], None, None)
     = pass2_loop ?f (first_ts ?T) (reset ?T) 15 (5, pb, [], None, None)"
    using hd lt by (subst pass2_loop.simps) simp
  from pass2_frames [OF assms, of "first_ts ?T" "reset ?T" "legacy_header v" "[]" None None 5 pb]
  show ?thesis
    using p1 tf start
    by (auto simp: get_frames_def legacy_file_def length_legacy_header)
qed

lemma two_packets:
  "insert_all first rst off [d1, d2] ([], None, None) =
     (let p1 = media_packet first rst off d1; p2 = media_packet first rst (off + 10 + length d1) d2 in
      if precedes p1 p2
      then Some ([p1\<lparr>pnext := Some 1\<rparr>, p2\<lparr>pprev := Some 0\<rparr>], Some 0, Some 1)
      else Some ([p1\<lparr>pprev := Some 1\<rparr>, p2\<lparr>pnext := Some 0\<rparr>], Some 1, Some 0))"
  by (simp add: insert_packet_def Let_def scan_back_Some scan_back_None link_added_def link_after_def
      media_packet_def)

lemma index_of_two:
  assumes "sized d1" "sized d2" "rtp_timestamp d1 = rtp_timestamp d2"
  shows "map_option (map seq) (index_of jl (legacy_file v [d1, d2])) =
     Some (if seq_before (rtp_seq_number d1) (rtp_seq_number d2)
           then [rtp_seq_number d1, rtp_seq_number d2]
           else [rtp_seq_number d2, rtp_seq_number d1])"
proof -
  have "\<forall>d \<in> set [d1, d2]. sized d" using assms by simp
  note g = get_frames_legacy [OF this, of jl v, unfolded two_packets]
  show ?thesis
    unfolding index_of_def g using assms(3)
    by (simp add: Let_def frames_list_def precedes_def media_packet_def numeral_2_eq_2)
qed

section \<open>The bookkeeping of pass 1 along the timestamps\<close>

lemma track_all_snoc: "track_all (tss @ [t]) = ts_track t (track_all tss)"
  by (simp add: track_all_def)

lemma last_ts_track [simp]: "last_ts (ts_track t st) = t"
  by (simp add: ts_track_def Let_def)

lemma last_ts_track_all: "tss \<noteq> [] \<Longrightarrow> last_ts (track_all tss) = last tss"
  by (cases tss rule: rev_cases) (simp_all add: track_all_snoc)

lemma first_ts_track_all:
  "0 \<notin> set (butlast (t # tss)) \<Longrightarrow>
   first_ts (track_all (t # tss)) = (if t > 1000000 then t - 1000000 else t)"
proof (induction tss rule: rev_induct)
  case Nil
  then show ?case by (simp add: track_all_def ts_track_def scan_init_def Let_def)
next
  case (snoc x xs)
  have l: "last_ts (track_all (t # xs)) = last (t # xs)"
    by (rule last_ts_track_all) simp
  from snoc.prems have z: "0 \<notin> set (t # xs)"
    by (simp add: butlast_append)
  have "last (t # xs) \<in> set (t # xs)" by (rule last_in_set) simp
  with z have "last (t # xs) \<noteq> 0" by metis
  moreover from z have "0 \<notin> set (butlast (t # xs))"
    by (metis in_set_butlastD)
  ultimately have nz: "last_ts (track_all (t # xs)) \<noteq> 0"
    and b: "0 \<notin> set (butlast (t # xs))"
    unfolding l by simp_all
  have "first_ts (track_all (t # xs @ [x])) = first_ts (track_all (t # xs))"
    using track_all_snoc [of "t # xs" x] nz by (simp add: ts_track_def Let_def)
  with snoc.IH [OF b] show ?case by simp
qed

lemma reset_track_all_zero:
  "successively (\<lambda>a b. \<not> (b < a \<and> a - b > 2000000000)) tss \<Longrightarrow> reset (track_all tss) = 0"
proof (induction tss rule: rev_induct)
  case Nil
  then show ?case by (simp add: track_all_def scan_init_def)
next
  case (snoc x xs)
  then have IH: "reset (track_all xs) = 0"
    and st: "xs = [] \<or> \<not> (x < last xs \<and> last xs - x > 2000000000)"
    by (auto simp: successively_append_iff)
  show ?case
  proof (cases "xs = []")
    case True
    then show ?thesis by (simp add: track_all_def ts_track_def scan_init_def Let_def)
  next
    case False
    with st IH last_ts_track_all [OF False] show ?thesis
      by (auto simp: track_all_snoc ts_track_def Let_def)
  qed
qed

lemma reset_track_step:
  assumes "a \<noteq> 0"
  shows "reset (track_all (pre @ [a, b])) =
     (if b < a then (if a - b > 2000000000 then b else reset (track_all (pre @ [a])))
      else if b < reset (track_all (pre @ [a])) then b else reset (track_all (pre @ [a])))"
proof -
  have "track_all (pre @ [a, b]) = ts_track b (track_all (pre @ [a]))"
    using track_all_snoc [of "pre @ [a]" b] by simp
  moreover have "last_ts (track_all (pre @ [a])) = a"
    using last_ts_track_all [of "pre @ [a]"] by simp
  ultimately show ?thesis
    using assms by (simp add: ts_track_def Let_def)
qed

lemma pass1_findings_legacy:
  assumes "\<forall>d \<in> set ds. sized d"
  shows "pass1_findings jl (legacy_file v ds) =
     Some (first_ts (track_all (map rtp_timestamp ds)), reset (track_all (map rtp_timestamp ds)))"
  using pass1_legacy [OF assms, of jl v] by (auto simp: pass1_findings_def ts_fields_def)

section \<open>The playout thread: packets, bursts and pacing\<close>

lemma passed_us_total:
  "passed_us now before =
     (tv_sec now * 1000000 + tv_usec now) - (tv_sec before * 1000000 + tv_usec before)"
  by (simp add: passed_us_def Let_def algebra_simps)

lemma c_div_nonneg: "0 \<le> a \<Longrightarrow> 0 < b \<Longrightarrow> c_div a b = a div b"
  by (cases "a = 0") (simp_all add: c_div_def)

lemma c_mod_nonneg: "0 \<le> a \<Longrightarrow> 0 < b \<Longrightarrow> c_mod a b = a mod b"
  by (simp add: c_mod_def c_div_nonneg minus_mult_div_eq_mod)

lemma update_reference_below_second:
  assumes "0 \<le> d" "d < 1000000"
  shows "tv_sec (update_reference b d) * 1000000 + tv_usec (update_reference b d) =
         tv_sec b * 1000000 + tv_usec b + d"
  using assms by (simp add: update_reference_def Let_def c_div_nonneg c_mod_nonneg)

lemma update_reference_total:
  assumes "0 \<le> d"
  shows "tv_sec (update_reference b d) * 1000000 + tv_usec (update_reference b d) =
         tv_sec b * 1000000 + tv_usec b + d - d div 1000000"
  using assms by (simp add: update_reference_def Let_def c_div_nonneg c_mod_nonneg algebra_simps)

lemma take_rtp_set_type:
  "take n (rtp_set_type buf pt) = rtp_set_type (take n buf) pt"
proof (cases "1 < n")
  case True
  then show ?thesis by (simp add: rtp_set_type_def take_update_swap)
next
  case False
  then show ?thesis by (simp add: rtp_set_type_def list_update_beyond)
qed

lemma take_min_drop: "take (min (length f - k) n) (drop k f) = take n (drop k f)"
  by (cases "length f - k \<le> n") (simp_all add: min_def)

lemma send_packet_emits:
  assumes "send_packet f p pt buf = Some (pkt, buf')"
  shows "pkt = rtp_set_type (recorded f p) pt"
  using assms
  by (auto simp: send_packet_def fread_def Let_def recorded_def take_rtp_set_type take_min_drop
      split: if_splits)

lemma send_packet_returns:
  assumes "len p \<le> 1500"
  shows "\<exists>buf'. send_packet f p pt buf = Some (rtp_set_type (recorded f p) pt, buf')"
  using assms
  by (auto simp: send_packet_def fread_def Let_def recorded_def take_rtp_set_type take_min_drop)


lemma send_packet_cases:
  "send_packet f p pt buf = None \<and> 1500 < len p \<or>
   (\<exists>buf'. send_packet f p pt buf = Some (rtp_set_type (recorded f p) pt, buf'))"
  by (auto simp: send_packet_def fread_def Let_def recorded_def take_rtp_set_type take_min_drop)

lemma rtp_set_type_length: "length (rtp_set_type b pt) = length b"
  by (simp add: rtp_set_type_def)

lemma rtp_set_type_other: "k \<noteq> 1 \<Longrightarrow> rtp_set_type b pt ! k = b ! k"
  by (simp add: rtp_set_type_def)

lemma and_127_128: "(x :: byte) AND 127 AND 128 = 0"
  by (simp add: and.assoc)

lemma rtp_set_type_marker: "1 < length b \<Longrightarrow> rtp_set_type b pt ! 1 AND 128 = b ! 1 AND 128"
  by (simp add: rtp_set_type_def bit.conj_disj_distrib2 and.assoc)

lemma rtp_set_type_type: "1 < length b \<Longrightarrow> rtp_type (rtp_set_type b pt) = word_of_int pt AND 127"
  by (simp add: rtp_set_type_def rtp_type_def bit.conj_disj_distrib2 and.assoc)

lemma send_same_ts_None:
  "send_same_ts f fs pt t None buf acc = Some (acc, None, buf)"
  by (subst send_same_ts.simps) simp

lemma send_same_ts_Some:
  "send_same_ts f fs pt t (Some i) buf acc =
     (if length fs \<le> i then None
      else if ts (fs ! i) = t then
        (case send_packet f (fs ! i) pt buf of
           None \<Rightarrow> None
         | Some (pkt, b) \<Rightarrow> send_same_ts f fs pt t (next_pos fs i) b (acc @ [pkt]))
      else Some (acc, Some i, buf))"
  by (subst send_same_ts.simps) simp

lemma send_same_ts_run:
  assumes "send_same_ts f fs pt t v buf acc = Some (out, pos, buf')"
  shows "case v of
           None \<Rightarrow> out = acc \<and> pos = None
         | Some i \<Rightarrow>
             i < length fs \<and>
             out = acc @ map (\<lambda>p. rtp_set_type (recorded f p) pt) (takeWhile (\<lambda>p. ts p = t) (drop i fs)) \<and>
             pos = (if i + length (takeWhile (\<lambda>p. ts p = t) (drop i fs)) < length fs
                    then Some (i + length (takeWhile (\<lambda>p. ts p = t) (drop i fs))) else None)"
  using assms
proof (induction f fs pt t v buf acc rule: send_same_ts.induct)
  case (1 f fs pt t v buf acc)
  note unf = send_same_ts_None send_same_ts_Some
  show ?case
  proof (cases v)
    case None
    with "1.prems" show ?thesis by (simp add: unf)
  next
    case (Some i)
    with "1.prems" have i: "i < length fs"
      by (simp add: unf split: if_splits)
    then have d: "drop i fs = fs ! i # drop (Suc i) fs"
      by (simp add: Cons_nth_drop_Suc)
    show ?thesis
    proof (cases "ts (fs ! i) = t")
      case False
      with "1.prems" Some i have "out = acc" "pos = Some i"
        by (simp_all add: unf)
      with Some i d False show ?thesis by simp
    next
      case True
      from "1.prems" Some i True obtain pkt b where
        sp: "send_packet f (fs ! i) pt buf = Some (pkt, b)" and
        r: "send_same_ts f fs pt t (next_pos fs i) b (acc @ [pkt]) = Some (out, pos, buf')"
        by (auto simp: unf split: option.splits)
      from sp have pk: "pkt = rtp_set_type (recorded f (fs ! i)) pt"
        by (rule send_packet_emits)
      from i have nle: "\<not> length fs \<le> i" by simp
      note ih = "1.IH" [OF Some nle True sp refl r]
      show ?thesis
      proof (cases "Suc i < length fs")
        case True
        with ih have "out = (acc @ [pkt]) @ map (\<lambda>p. rtp_set_type (recorded f p) pt)
               (takeWhile (\<lambda>p. ts p = t) (drop (Suc i) fs)) \<and>
             pos = (if Suc i + length (takeWhile (\<lambda>p. ts p = t) (drop (Suc i) fs)) < length fs
                    then Some (Suc i + length (takeWhile (\<lambda>p. ts p = t) (drop (Suc i) fs))) else None)"
          by (simp add: next_pos_def)
        with Some i d \<open>ts (fs ! i) = t\<close> pk show ?thesis by simp
      next
        case False
        with ih have "out = acc @ [pkt] \<and> pos = None"
          by (simp add: next_pos_def)
        with Some i d \<open>ts (fs ! i) = t\<close> pk False show ?thesis by simp
      qed
    qed
  qed
qed

lemma send_same_ts_returns:
  assumes "\<forall>p \<in> set fs. len p \<le> 1500" "case v of None \<Rightarrow> True | Some i \<Rightarrow> i < length fs"
  shows "send_same_ts f fs pt t v buf acc \<noteq> None"
  using assms
proof (induction f fs pt t v buf acc rule: send_same_ts.induct)
  case (1 f fs pt t v buf acc)
  note unf = send_same_ts_None send_same_ts_Some
  show ?case
  proof (cases v)
    case None
    then show ?thesis by (simp add: unf)
  next
    case (Some i)
    with "1.prems" have i: "i < length fs" by simp
    then have nle: "\<not> length fs \<le> i" by simp
    show ?thesis
    proof (cases "ts (fs ! i) = t")
      case False
      with Some i show ?thesis by (simp add: unf)
    next
      case True
      from i "1.prems"(1) have "len (fs ! i) \<le> 1500" by simp
      with send_packet_cases [of f "fs ! i" pt buf] obtain b where
        sp: "send_packet f (fs ! i) pt buf = Some (rtp_set_type (recorded f (fs ! i)) pt, b)"
        by auto
      have "case next_pos fs i of None \<Rightarrow> True | Some j \<Rightarrow> j < length fs"
        by (simp add: next_pos_def)
      note ih = "1.IH" [OF Some nle True sp refl "1.prems"(1) this]
      with Some i True sp show ?thesis by (simp add: unf)
    qed
  qed
qed

lemma same_ts_run_facts:
  assumes "i < length fs"
  shows "same_ts_run fs i \<noteq> []"
    and "same_ts_run fs i = take (length (same_ts_run fs i)) (drop i fs)"
    and "\<forall>p \<in> set (same_ts_run fs i). ts p = ts (fs ! i)"
    and "i + length (same_ts_run fs i) < length fs \<Longrightarrow>
           ts (fs ! (i + length (same_ts_run fs i))) \<noteq> ts (fs ! i)"
proof -
  from assms have d: "drop i fs = fs ! i # drop (Suc i) fs"
    by (simp add: Cons_nth_drop_Suc)
  show "same_ts_run fs i \<noteq> []"
    by (simp add: same_ts_run_def d)
  show "same_ts_run fs i = take (length (same_ts_run fs i)) (drop i fs)"
    unfolding same_ts_run_def by (rule takeWhile_eq_take)
  show "\<forall>p \<in> set (same_ts_run fs i). ts p = ts (fs ! i)"
    unfolding same_ts_run_def by (auto dest: set_takeWhileD)
  assume l: "i + length (same_ts_run fs i) < length fs"
  then have "length (takeWhile (\<lambda>p. ts p = ts (fs ! i)) (drop i fs)) < length (drop i fs)"
    by (simp add: same_ts_run_def)
  from nth_length_takeWhile [OF this] l show "ts (fs ! (i + length (same_ts_run fs i))) \<noteq> ts (fs ! i)"
    by (simp add: same_ts_run_def)
qed

text \<open>The two parts of an iteration at a position: the rule of the pacing and what is sent.\<close>

lemma video_step_None:
  "video_step f fs pt now (None, tv, buf) = Some ([], False, (None, tv, buf))"
  by (simp add: video_step_def)

lemma audio_step_None:
  "audio_step f fs pt now (None, tv, buf) = Some ([], False, (None, tv, buf))"
  by (simp add: audio_step_def)

lemma video_step_Some:
  "video_step f fs pt now (Some i, tv, buf) =
     (if length fs \<le> i then None
      else if 0 < i \<and> passed_us now tv < ts_diff_us vkhz (ts (fs ! i)) (ts (fs ! (i - 1))) - 5000
      then Some ([], False, (Some i, tv, buf))
      else
        (case send_same_ts f fs pt (ts (fs ! i)) (Some i) buf [] of
           None \<Rightarrow> None
         | Some (pkts, pos, b) \<Rightarrow>
             Some (pkts, True,
                   (pos,
                    if i = 0 then now
                    else update_reference tv (ts_diff_us vkhz (ts (fs ! i)) (ts (fs ! (i - 1)))), b))))"
  by (simp add: video_step_def Let_def split: option.split)

lemma audio_step_Some:
  "audio_step f fs pt now (Some i, tv, buf) =
     (if length fs \<le> i then None
      else if 0 < i \<and> passed_us now tv < ts_diff_us (akhz pt) (ts (fs ! i)) (ts (fs ! (i - 1))) - 5000
      then Some ([], False, (Some i, tv, buf))
      else
        (case send_packet f (fs ! i) pt buf of
           None \<Rightarrow> None
         | Some (pkt, b) \<Rightarrow>
             Some ([pkt], True,
                   (next_pos fs i,
                    if i = 0 then now
                    else update_reference tv (ts_diff_us (akhz pt) (ts (fs ! i)) (ts (fs ! (i - 1)))), b))))"
  by (simp add: audio_step_def Let_def split: option.split)

lemma audio_step_events:
  assumes "audio_step f fs pt now s = Some (pkts, sent, s')" "pkt \<in> set pkts"
  shows "\<exists>p \<in> set fs. pkt = rtp_set_type (recorded f p) pt"
proof -
  obtain pos tv buf where s: "s = (pos, tv, buf)" by (cases s)
  show ?thesis
  proof (cases pos)
    case None
    with assms s show ?thesis by (simp add: audio_step_None)
  next
    case (Some i)
    with assms s have i: "i < length fs"
      by (simp add: audio_step_Some split: if_splits)
    show ?thesis
    proof (cases "send_packet f (fs ! i) pt buf")
      case None
      with assms s Some show ?thesis
        by (simp add: audio_step_Some split: if_splits)
    next
      case (Some r)
      obtain q b where r: "r = (q, b)" by (cases r)
      from assms s \<open>pos = Some i\<close> Some r have "pkt = q"
        by (auto simp: audio_step_Some split: if_splits)
      with Some r have "send_packet f (fs ! i) pt buf = Some (pkt, b)"
        by simp
      then have "pkt = rtp_set_type (recorded f (fs ! i)) pt"
        by (rule send_packet_emits)
      with i show ?thesis by auto
    qed
  qed
qed

lemma video_step_sent:
  assumes "video_step f fs pt now (Some i, tv, buf) = Some (pkts, True, (pos, tv', buf'))"
  shows "pkts = map (\<lambda>p. rtp_set_type (recorded f p) pt) (same_ts_run fs i) \<and>
         pos = (if i + length (same_ts_run fs i) < length fs
                then Some (i + length (same_ts_run fs i)) else None)"
proof (cases "send_same_ts f fs pt (ts (fs ! i)) (Some i) buf []")
  case None
  with assms show ?thesis
    by (simp add: video_step_Some split: if_splits)
next
  case (Some r)
  obtain out p b where r: "r = (out, p, b)" by (cases r)
  from assms Some r have "out = pkts" "p = pos"
    by (simp_all add: video_step_Some split: if_splits)
  with Some r have "send_same_ts f fs pt (ts (fs ! i)) (Some i) buf [] = Some (pkts, pos, b)"
    by simp
  from send_same_ts_run [OF this] show ?thesis
    by (simp add: same_ts_run_def)
qed

lemma video_step_not_sent:
  assumes "video_step f fs pt now s = Some (pkts, False, s')"
  shows "pkts = [] \<and> s' = s"
proof -
  obtain pos tv buf where s: "s = (pos, tv, buf)" by (cases s)
  show ?thesis
  proof (cases pos)
    case None
    with assms s show ?thesis by (simp add: video_step_None)
  next
    case (Some i)
    with assms s show ?thesis
      by (auto simp: video_step_Some split: if_splits option.splits prod.splits)
  qed
qed

lemma video_step_returns:
  assumes "i < length fs" "\<forall>p \<in> set fs. len p \<le> 1500"
  shows "video_step f fs pt now (Some i, tv, buf) \<noteq> None"
proof -
  have "send_same_ts f fs pt (ts (fs ! i)) (Some i) buf [] \<noteq> None"
    using assms by (intro send_same_ts_returns) simp_all
  with assms(1) show ?thesis
    by (auto simp: video_step_Some)
qed

lemma video_step_events:
  assumes "video_step f fs pt now s = Some (pkts, sent, s')" "pkt \<in> set pkts"
  shows "\<exists>p \<in> set fs. pkt = rtp_set_type (recorded f p) pt"
proof -
  obtain pos tv buf where s: "s = (pos, tv, buf)" by (cases s)
  obtain pos' tv' buf' where s': "s' = (pos', tv', buf')" by (cases s')
  show ?thesis
  proof (cases sent)
    case False
    with assms video_step_not_sent [of f fs pt now s pkts s'] show ?thesis by simp
  next
    case True
    with assms s obtain i where p: "pos = Some i"
      by (cases pos) (simp_all add: video_step_None)
    from assms True have "pkts = map (\<lambda>p. rtp_set_type (recorded f p) pt) (same_ts_run fs i)"
      unfolding s s' p by (simp add: video_step_sent)
    with assms(2) obtain q where q: "q \<in> set (same_ts_run fs i)" "pkt = rtp_set_type (recorded f q) pt"
      by auto
    from q(1) have "q \<in> set fs"
      unfolding same_ts_run_def by (auto dest!: set_takeWhileD in_set_dropD)
    with q(2) show ?thesis by auto
  qed
qed

lemma ts_diff_us_formula:
  assumes "prv \<le> cur" "uint cur - uint prv < 2 ^ 63" "0 < khz"
  shows "ts_diff_us khz cur prv = ((uint cur - uint prv) * 1000) div khz"
proof -
  from assms(1) have u: "uint (cur - prv) = uint cur - uint prv"
    by (simp add: uint_sub_lem word_le_def)
  with assms(2) have "uint (cur - prv) < 2 ^ 63" by simp
  moreover have "- (2 ^ 63) \<le> uint (cur - prv)"
    by (rule order_trans [of _ 0]) simp_all
  ultimately have "sint (cur - prv) = uint (cur - prv)"
    by (simp add: sint_uint signed_take_bit_int_eq_self)
  with u have s: "sint (cur - prv) = uint cur - uint prv" by simp
  from assms(1) have "0 \<le> uint cur - uint prv"
    by (simp add: word_le_def)
  then have "0 \<le> (uint cur - uint prv) * 1000" by simp
  from c_div_nonneg [OF this assms(3)] show ?thesis
    unfolding ts_diff_us_def s .
qed

lemma playout_iteration_events:
  assumes "playout_iteration af al apt vf vl vpt now_a now_v st = Some (evs, st')"
    and "Relay_rtp v pkt \<in> set evs"
  shows "if v then \<exists>p \<in> set vl. pkt = rtp_set_type (recorded vf p) vpt
         else \<exists>p \<in> set al. pkt = rtp_set_type (recorded af p) apt"
proof -
  let ?slept = "if \<not> asent st \<and> \<not> vsent st then [Usleep 5000] else []"
  from assms(1) obtain ra where
    a: "audio_step af al apt now_a (audio st, abefore st, buffer st) = Some ra"
    by (cases "audio_step af al apt now_a (audio st, abefore st, buffer st)")
       (simp_all add: playout_iteration_def Let_def)
  obtain apkts a_sent pa ab buf where ra: "ra = (apkts, a_sent, pa, ab, buf)"
    by (cases ra)
  from assms(1) a ra obtain rv where
    v: "video_step vf vl vpt now_v (video st, vbefore st, buf) = Some rv"
    by (cases "video_step vf vl vpt now_v (video st, vbefore st, buf)")
       (simp_all add: playout_iteration_def Let_def)
  obtain vpkts v_sent pv vb buf' where rv: "rv = (vpkts, v_sent, pv, vb, buf')"
    by (cases rv)
  from assms(1) a ra v rv
  have "evs = ?slept @ map (Relay_rtp False) apkts @ map (Relay_rtp True) vpkts"
    by (simp add: playout_iteration_def Let_def)
  with assms(2) have "v \<and> pkt \<in> set vpkts \<or> \<not> v \<and> pkt \<in> set apkts"
    by (auto split: if_splits)
  with audio_step_events [OF a [unfolded ra]] video_step_events [OF v [unfolded rv]] show ?thesis
    by auto
qed

lemma playout_loop_events:
  assumes "playout_loop af al apt vf vl vpt inputs st = Some (evs, st')"
    and "Relay_rtp v pkt \<in> set evs"
  shows "if v then \<exists>p \<in> set vl. pkt = rtp_set_type (recorded vf p) vpt
         else \<exists>p \<in> set al. pkt = rtp_set_type (recorded af p) apt"
  using assms
proof (induction inputs arbitrary: st evs)
  case Nil
  then show ?case by simp
next
  case (Cons inp inputs)
  obtain alive now_a now_v where inp: "inp = (alive, now_a, now_v)" by (cases inp)
  show ?case
  proof (cases "alive \<and> (audio st \<noteq> None \<or> video st \<noteq> None)")
    case False
    with Cons.prems inp show ?thesis by auto
  next
    case True
    with Cons.prems(1) inp obtain e1 st1 e2 where
      i: "playout_iteration af al apt vf vl vpt now_a now_v st = Some (e1, st1)" and
      l: "playout_loop af al apt vf vl vpt inputs st1 = Some (e2, st')" and
      e: "evs = e1 @ e2"
      by (auto split: option.splits)
    from e Cons.prems(2) have "Relay_rtp v pkt \<in> set e1 \<or> Relay_rtp v pkt \<in> set e2"
      by auto
    with playout_iteration_events [OF i] Cons.IH [OF l] show ?thesis
      by blast
  qed
qed

lemma fixed_audio_pt_byte:
  "(word_of_int (fixed_audio_pt c) :: byte) AND 127 =
     (if c = None then 111
      else if strcasecmp_eq (the c) ''pcmu'' then 0
      else if strcasecmp_eq (the c) ''pcma'' then 8
      else if strcasecmp_eq (the c) ''g722'' then 9
      else 111)"
  by (simp add: fixed_audio_pt_def AUDIO_PT_def split: option.split)

section \<open>The requests: the random id and the lists of a playout\<close>

lemma draws_step: "n \<le> k \<Longrightarrow> [Random_uint64 (rnd n), Hash_table_lookup (rnd n)] @ draws rnd (Suc n) (Suc k) = draws rnd n (Suc k)"
  by (simp add: draws_def upt_conv_Cons del: upt_Suc)

lemma random_id_finds:
  assumes "rnd k \<noteq> 0" "regs (rnd k) = None"
    and "\<forall>j. n \<le> j \<and> j < k \<longrightarrow> rnd j = 0 \<or> regs (rnd j) \<noteq> None" "n \<le> k"
  shows "random_id rnd n regs tr = Some (rnd k, tr @ draws rnd n (Suc k))"
  using assms(3,4)
proof (induction "k - n" arbitrary: n tr)
  case 0
  then have "n = k" by simp
  with assms(1,2) show ?case
    by (subst random_id.simps) (simp add: draws_def)
next
  case (Suc d)
  then have lt: "n < k" by simp
  with Suc.prems have bad: "rnd n = 0 \<or> regs (rnd n) \<noteq> None" by simp
  from Suc.hyps(2) lt have d: "d = k - Suc n" by simp
  from Suc.prems lt have "\<forall>j. Suc n \<le> j \<and> j < k \<longrightarrow> rnd j = 0 \<or> regs (rnd j) \<noteq> None" "Suc n \<le> k"
    by simp_all
  note ih = Suc.hyps(1) [OF d this, of "tr @ [Random_uint64 (rnd n), Hash_table_lookup (rnd n)]"]
  from lt have "n \<le> k" by simp
  from draws_step [OF this, of rnd] ih bad show ?case
    by (subst random_id.simps) auto
qed

lemma random_id_Some:
  assumes "random_id rnd n regs tr = Some y"
  shows "\<exists>k \<ge> n. rnd k \<noteq> 0 \<and> regs (rnd k) = None"
proof (rule random_id.raw_induct
    [where P = "\<lambda>rnd n regs tr y. \<exists>k \<ge> n. rnd k \<noteq> 0 \<and> regs (rnd k) = None", OF _ assms])
  fix f :: "(nat \<Rightarrow> 64 word) \<Rightarrow> nat \<Rightarrow> recordings \<Rightarrow> call list \<Rightarrow> (64 word \<times> call list) option"
  fix rnd n regs tr y
  assume ih: "\<And>rnd n regs tr y. f rnd n regs tr = Some y \<Longrightarrow>
      \<exists>k \<ge> n. rnd k \<noteq> 0 \<and> regs (rnd k) = None"
  assume b: "(if (if regs (rnd n) \<noteq> None then 0 else rnd n) = 0
      then f rnd (Suc n) regs (tr @ [Random_uint64 (rnd n), Hash_table_lookup (rnd n)])
      else Some (rnd n, tr @ [Random_uint64 (rnd n), Hash_table_lookup (rnd n)])) = Some y"
  show "\<exists>k \<ge> n. rnd k \<noteq> 0 \<and> regs (rnd k) = None"
  proof (cases "(if regs (rnd n) \<noteq> None then 0 else rnd n) = 0")
    case True
    with b have "f rnd (Suc n) regs (tr @ [Random_uint64 (rnd n), Hash_table_lookup (rnd n)]) = Some y"
      by simp
    from ih [OF this] obtain k where "Suc n \<le> k" "rnd k \<noteq> 0 \<and> regs (rnd k) = None"
      by auto
    then show ?thesis
      by (intro exI [of _ k]) simp
  next
    case False
    then have "rnd n \<noteq> 0 \<and> regs (rnd n) = None"
      by (auto split: if_splits)
    then show ?thesis by auto
  qed
qed

lemma random_id_never:
  assumes "\<forall>j. rnd j = 0 \<or> regs (rnd j) \<noteq> None"
  shows "random_id rnd n regs tr = None"
proof (cases "random_id rnd n regs tr")
  case None
  then show ?thesis .
next
  case (Some x)
  from random_id_Some [OF Some] assms show ?thesis
    by auto
qed

lemma positive_id_nonzero:
  assumes "0 < m" "m < 2 ^ 64"
  shows "(word_of_int m :: 64 word) \<noteq> 0"
proof
  assume "(word_of_int m :: 64 word) = 0"
  then have "(2 :: int) ^ 64 dvd m"
    by (simp add: word_of_int_eq_0_iff)
  with assms(1) have "(2 :: int) ^ 64 \<le> m"
    by (rule_tac zdvd_imp_le)
  with assms(2) show False by simp
qed

lemma record_new_exists:
  assumes "rec_id rq = Some (JInteger m)" "(word_of_int m :: 64 word) \<noteq> 0" "regs (word_of_int m) \<noteq> None"
  shows "record_new rq rnd regs s =
           Some (Error ERROR_RECORDING_EXISTS (''Recording '' @ decimal (unat (word_of_int m :: 64 word)) @ '' already exists''),
                 regs, s, [Mutex_lock, Hash_table_lookup (word_of_int m), Mutex_unlock])"
  using assms by (simp add: record_new_def json_integer_value_def Let_def word_greater_zero_iff)

lemma record_new_random:
  assumes "rec_id rq = None \<or> json_integer_value (rec_id rq) = 0"
    and "random_id rnd 0 regs [Mutex_lock] = Some (i, tr)"
  shows "record_new rq rnd regs s =
     Some (Result i, regs(i \<mapsto> new_recording rq i),
           s\<lparr>arc := (if acodec (new_recording rq i) \<noteq> None then arc_file (new_recording rq i) else arc s),
              vrc := (if vcodec (new_recording rq i) \<noteq> None then vrc_file (new_recording rq i) else vrc s),
              recorder := True, recording := Some i, sdp_version := 1, sdp_sessid := real_time rq\<rparr>,
           tr @ [Malloc_recording i]
              @ (if acodec (new_recording rq i) \<noteq> None
                 then [Recorder_create (acodec (new_recording rq i)) (the (arc_file (new_recording rq i)))] else [])
              @ (if vcodec (new_recording rq i) \<noteq> None
                 then [Recorder_create (vcodec (new_recording rq i)) (the (vrc_file (new_recording rq i)))] else [])
              @ [Hash_table_insert i, Mutex_unlock])"
proof -
  from assms(1) have z: "(if rec_id rq \<noteq> None then word_of_int (json_integer_value (rec_id rq)) else 0) = (0 :: 64 word)"
    by auto
  show ?thesis
    unfolding record_new_def z using assms(2) by (simp add: Let_def)
qed

lemma record_new_never:
  assumes "rec_id rq = None \<or> json_integer_value (rec_id rq) = 0"
    and "random_id rnd 0 regs [Mutex_lock] = None"
  shows "record_new rq rnd regs s = None"
proof -
  from assms(1) have z: "(if rec_id rq \<noteq> None then word_of_int (json_integer_value (rec_id rq)) else 0) = (0 :: 64 word)"
    by auto
  show ?thesis
    unfolding record_new_def z using assms(2) by (simp add: Let_def)
qed




text \<open>
  Every recording of the table has the payload types that the record request gave it: the
  fixed one of its audio codec or 111, and 100 for video.
\<close>

lemma new_recording_payload_types:
  "audio_pt (new_recording rq i) = fixed_audio_pt (acodec (new_recording rq i))"
  "video_pt (new_recording rq i) = VIDEO_PT"
  by (simp_all add: new_recording_def Let_def)

lemma record_new_payload_types:
  assumes "record_new rq rnd regs s = Some (Result i, regs', s', tr)"
    and "\<forall>j r. regs j = Some r \<longrightarrow> audio_pt r = fixed_audio_pt (acodec r) \<and> video_pt r = VIDEO_PT"
  shows "\<forall>j r. regs' j = Some r \<longrightarrow> audio_pt r = fixed_audio_pt (acodec r) \<and> video_pt r = VIDEO_PT"
proof -
  from assms(1) obtain k where "regs' = regs(k \<mapsto> new_recording rq k)"
    by (auto simp: record_new_def Let_def split: if_splits option.splits)
  with assms(2) new_recording_payload_types show ?thesis
    by auto
qed

lemma play_new_payload_types:
  assumes "play_new fopen jl dir i regs s = Some (x, regs', s')"
    and "\<forall>j r. regs j = Some r \<longrightarrow> audio_pt r = fixed_audio_pt (acodec r) \<and> video_pt r = VIDEO_PT"
  shows "\<forall>j r. regs' j = Some r \<longrightarrow> audio_pt r = fixed_audio_pt (acodec r) \<and> video_pt r = VIDEO_PT"
proof (cases "regs (word_of_int (json_integer_value i))")
  case None
  with assms show ?thesis
    by (simp add: play_new_def)
next
  case (Some r)
  with assms(2) have r: "audio_pt r = fixed_audio_pt (acodec r)" "video_pt r = VIDEO_PT"
    by auto
  from assms(1) Some have "regs' = regs \<or>
      regs' = regs(word_of_int (json_integer_value i) \<mapsto> r\<lparr>ref := ref r + 1\<rparr>) \<or>
      regs' = regs(word_of_int (json_integer_value i) \<mapsto>
                r\<lparr>ref := ref r + 1, viewers := viewers r @ [handle s]\<rparr>)"
    by (auto simp: play_new_def Let_def split: if_splits option.splits)
  with assms(2) r show ?thesis
    by (auto split: if_splits)
qed

section \<open>Claims about the index builder\<close>

lemmas eval_defs =
  legacy_header_def info_record_def frame_record_def rtp_packet_def htons_def htonl_def ch_def
  pass1_loop.simps pass2_loop.simps pass1_step_def pass2_step_def pass1_rtp_def
  fread_def fread_len_def ntohs_def ntohl_def scan_init_def ts_track_def
  rtp_timestamp_def rtp_seq_number_def Let_def get_frames_def insert_packet_def
  scan_back.simps link_added_def link_after_def extended_ts_def seq_gap_def


text \<open>
  What holds of the list of every index: it is doubly linked without a repeated node, the
  timestamps never decrease along it, and of two neighbours with the same timestamp the
  second is never one that the comparison of the scan puts before the first.
\<close>

lemma index_ok_ordered:
  assumes i: "index_ok h listp lastp as"
  shows "(\<exists>lastp. dll h listp lastp (walk h listp (length h))) \<and>
      sorted (map ts (frames_list h listp)) \<and>
      successively (\<lambda>a b. ts a = ts b \<longrightarrow> \<not> seq_before (seq b) (seq a)) (frames_list h listp)"
proof -
  from i have w: "walk h listp (length h) = as"
    by (rule index_ok_walk)
  from i have d: "dll h listp lastp as" and o: "ordered h as"
    by (simp_all add: index_ok_def)
  from o have s: "sorted (map ts (map ((!) h) as))"
    by (simp add: ordered_def comp_def)
  from o have "successively (\<lambda>a b. \<not> precedes (h ! b) (h ! a)) as"
    by (simp add: ordered_def)
  then have "successively (\<lambda>a b. ts (h ! a) = ts (h ! b) \<longrightarrow> \<not> seq_before (seq (h ! b)) (seq (h ! a))) as"
    by (rule successively_mono) (auto simp: precedes_def)
  then have "successively (\<lambda>a b. ts a = ts b \<longrightarrow> \<not> seq_before (seq b) (seq a)) (map ((!) h) as)"
    by (simp add: successively_map)
  with d s w show ?thesis
    by (auto simp: frames_list_def)
qed

lemma get_frames_ordered:
  assumes "get_frames json_loads f = Some (Frames h listp)"
  shows "(\<exists>lastp. dll h listp lastp (walk h listp (length h))) \<and>
      sorted (map ts (frames_list h listp)) \<and>
      successively (\<lambda>a b. ts a = ts b \<longrightarrow> \<not> seq_before (seq b) (seq a)) (frames_list h listp)"
proof -
  have empty: "index_ok [] None None []"
    by (simp add: index_ok_def dll_def ordered_def)
  from get_frames_cases [of json_loads f] assms show ?thesis
    using index_ok_ordered index_ok_ordered [OF empty] by auto
qed




lemma wrap_pair_facts:
  "sized wrap_low" "sized wrap_high"
  "rtp_timestamp wrap_low = 90000" "rtp_timestamp wrap_high = 90000"
  "rtp_seq_number wrap_low = 10" "rtp_seq_number wrap_high = 65530"
  by (simp_all add: wrap_low_def wrap_high_def sized_def rtp_packet_def htons_def htonl_def
      rtp_timestamp_def ntohl_def rtp_seq_number_def ntohs_def)

lemma wrap_pair_frames:
  "index_of (\<lambda>text. None) (legacy_file True [wrap_low, wrap_high]) = Some wrap_pair_index"
  by (simp add: wrap_low_def wrap_high_def wrap_pair_index_def index_of_def legacy_file_def
      frames_list_def eval_defs)

text \<open>
  C3, the claim as stated fails. A legacy container holds three frames with the same
  timestamp and the sequence numbers 0, 6000 and 12000, in this order. Each new packet is
  compared with the tail only, whose sequence number is 6000 below its own, and is linked
  after it: the index is 0, 6000, 12000. The packets 0 and 12000 have the same timestamp
  and a gap of 12000, which exceeds 10000, and they are in the plain numeric order, not
  the reverse.
\<close>

theorem long_run_counterexample:
  "map rtp_timestamp long_run = [90000, 90000, 90000] \<and>
   map rtp_seq_number long_run = [0, 6000, 12000] \<and>
   map_option (map (\<lambda>p. (ts p, seq p))) (index_of (\<lambda>text. None) (legacy_file True long_run))
     = Some [(90000, 0), (90000, 6000), (90000, 12000)] \<and>
   10000 < seq_gap 0 12000"
proof -
  have "map rtp_timestamp long_run = [90000, 90000, 90000]"
    by (simp add: long_run_def rtp_packet_def htons_def htonl_def rtp_timestamp_def ntohl_def)
  moreover have "map rtp_seq_number long_run = [0, 6000, 12000]"
    by (simp add: long_run_def rtp_packet_def htons_def htonl_def rtp_seq_number_def ntohs_def)
  moreover have "map_option (map (\<lambda>p. (ts p, seq p)))
      (index_of (\<lambda>text. None) (legacy_file True long_run))
     = Some [(90000, 0), (90000, 6000), (90000, 12000)]"
    by (simp add: long_run_def index_of_def legacy_file_def frames_list_def eval_defs)
  moreover have "10000 < seq_gap 0 12000"
    by (simp add: seq_gap_def)
  ultimately show ?thesis by simp
qed

text \<open>
  C3, amended. In the index of every container file, two packets with the same extended
  timestamp that are neighbours in the list (one is linked directly after the other) are
  in the reverse of the numeric order of their sequence numbers when the gap between
  the two numbers exceeds 10000 and in the numeric order when the gap is below 10000 (at
  a gap of exactly 10000 both orders occur, by the order in the file). A legacy
  container with just two frames, of equal timestamp, in either order in the file, is
  indexed in that order: the larger sequence number first when the gap exceeds 10000,
  the smaller one first when it is below. With the sequence numbers 65530 and 10 the
  index is 65530, 10.
\<close>

theorem tie_break_by_sequence:
  "(index_of jl f = Some fs \<and> Suc i < length fs \<and> ts (fs ! i) = ts (fs ! Suc i) \<longrightarrow>
      (10000 < seq_gap (seq (fs ! i)) (seq (fs ! Suc i)) \<longrightarrow> seq (fs ! Suc i) < seq (fs ! i)) \<and>
      (seq_gap (seq (fs ! i)) (seq (fs ! Suc i)) < 10000 \<longrightarrow> seq (fs ! i) \<le> seq (fs ! Suc i))) \<and>
   (sized d1 \<and> sized d2 \<and> rtp_timestamp d1 = rtp_timestamp d2 \<longrightarrow>
      (10000 < seq_gap (rtp_seq_number d1) (rtp_seq_number d2) \<longrightarrow>
         map_option (map seq) (index_of jl (legacy_file v [d1, d2])) =
           Some [max (rtp_seq_number d1) (rtp_seq_number d2),
                 min (rtp_seq_number d1) (rtp_seq_number d2)]) \<and>
      (seq_gap (rtp_seq_number d1) (rtp_seq_number d2) < 10000 \<longrightarrow>
         map_option (map seq) (index_of jl (legacy_file v [d1, d2])) =
           Some [min (rtp_seq_number d1) (rtp_seq_number d2),
                 max (rtp_seq_number d1) (rtp_seq_number d2)]))"
proof -
  have neighbours: "(10000 < seq_gap (seq (fs ! i)) (seq (fs ! Suc i)) \<longrightarrow> seq (fs ! Suc i) < seq (fs ! i)) \<and>
      (seq_gap (seq (fs ! i)) (seq (fs ! Suc i)) < 10000 \<longrightarrow> seq (fs ! i) \<le> seq (fs ! Suc i))"
    if x: "index_of jl f = Some fs" and l: "Suc i < length fs" and t: "ts (fs ! i) = ts (fs ! Suc i)"
  proof -
    from x obtain h listp where g: "get_frames jl f = Some (Frames h listp)"
      and fs: "fs = frames_list h listp"
      by (auto simp: index_of_def split: option.splits frames_result.splits)
    from get_frames_ordered [OF g]
    have "successively (\<lambda>a b. ts a = ts b \<longrightarrow> \<not> seq_before (seq b) (seq a)) fs"
      by (simp add: fs)
    with l t have n: "\<not> seq_before (seq (fs ! Suc i)) (seq (fs ! i))"
      by (simp add: successively_conv_nth)
    have c: "seq_gap (seq (fs ! Suc i)) (seq (fs ! i)) = seq_gap (seq (fs ! i)) (seq (fs ! Suc i))"
      by (simp add: seq_gap_def abs_minus_commute)
    have z: "seq (fs ! Suc i) \<noteq> seq (fs ! i)" if "10000 < seq_gap (seq (fs ! i)) (seq (fs ! Suc i))"
      using that by (auto simp: seq_gap_def)
    from n c z show ?thesis
      by (auto simp: seq_before_def)
  qed
  have two: "(10000 < seq_gap (rtp_seq_number d1) (rtp_seq_number d2) \<longrightarrow>
         map_option (map seq) (index_of jl (legacy_file v [d1, d2])) =
           Some [max (rtp_seq_number d1) (rtp_seq_number d2),
                 min (rtp_seq_number d1) (rtp_seq_number d2)]) \<and>
      (seq_gap (rtp_seq_number d1) (rtp_seq_number d2) < 10000 \<longrightarrow>
         map_option (map seq) (index_of jl (legacy_file v [d1, d2])) =
           Some [min (rtp_seq_number d1) (rtp_seq_number d2),
                 max (rtp_seq_number d1) (rtp_seq_number d2)])"
    if "sized d1" "sized d2" "rtp_timestamp d1 = rtp_timestamp d2"
    unfolding index_of_two [OF that]
    by (auto simp: seq_before_def max_def min_def)
  from neighbours two show ?thesis
    by blast
qed

theorem tie_break_by_sequence_witness:
  "index_of (\<lambda>text. None) (legacy_file True [wrap_low, wrap_high]) = Some wrap_pair_index \<and>
   Suc 0 < length wrap_pair_index \<and>
   ts (wrap_pair_index ! 0) = ts (wrap_pair_index ! Suc 0) \<and>
   10000 < seq_gap (seq (wrap_pair_index ! 0)) (seq (wrap_pair_index ! Suc 0)) \<and>
   seq (wrap_pair_index ! Suc 0) < seq (wrap_pair_index ! 0) \<and>
   map seq wrap_pair_index = [65530, 10] \<and>
   sized wrap_low \<and> sized wrap_high \<and> rtp_timestamp wrap_low = rtp_timestamp wrap_high \<and>
   10000 < seq_gap (rtp_seq_number wrap_low) (rtp_seq_number wrap_high) \<and>
   map_option (map seq) (index_of (\<lambda>text. None) (legacy_file True [wrap_low, wrap_high]))
     = Some [65530, 10] \<and>
   map_option (map seq) (index_of (\<lambda>text. None) (legacy_file True [wrap_high, wrap_low]))
     = Some [65530, 10]"
proof -
  have g: "seq_gap (10 :: 16 word) 65530 = 65520" "seq_gap (65530 :: 16 word) 10 = 65520"
    by (simp_all add: seq_gap_def)
  from tie_break_by_sequence [of "\<lambda>text. None" "legacy_file True [wrap_low, wrap_high]"
      wrap_pair_index 0 wrap_low wrap_high True]
    tie_break_by_sequence [of "\<lambda>text. None" "legacy_file True [wrap_low, wrap_high]"
      wrap_pair_index 0 wrap_high wrap_low True]
  show ?thesis
    using wrap_pair_frames
    by (simp add: wrap_pair_facts g wrap_pair_index_def)
qed

lemma restart_packets_facts:
  "\<forall>d \<in> set restart_packets. sized d"
  "\<forall>d \<in> set (take 3 restart_packets). sized d"
  "map rtp_timestamp restart_packets = [4294967000, 500, 300, 400]"
  by (simp_all add: restart_packets_def sized_def rtp_packet_def htons_def htonl_def
      rtp_timestamp_def ntohl_def)

text \<open>
  C5, the claim as stated fails: in the legacy container with the timestamps 4294967000,
  500, 300 the reset is recorded as 500 at the second frame, and the third frame, whose
  timestamp 300 is smaller than the recorded value, does not lower it: it is smaller than
  the timestamp just before it, which the code takes for a packet out of order.
\<close>

theorem reset_not_lowered_counterexample:
  "map rtp_timestamp (take 3 restart_packets) = [4294967000, 500, 300] \<and>
   pass1_findings (\<lambda>text. None) (legacy_file True (take 3 restart_packets)) = Some (4293967000, 500)"
  by (simp add: restart_packets_def pass1_findings_def legacy_file_def eval_defs)

text \<open>
  C5, amended. On a legacy container pass 1 ends with the bookkeeping of its timestamps
  in file order. The first timestamp, reduced by 1000000 if it exceeds that, is
  \<open>first_ts\<close> as long as no timestamp before the last one is 0. The recorded reset value
  is 0 as long as no timestamp is smaller than the one just before it by more than
  2000000000. After a timestamp \<open>a\<close> that is not 0, the next timestamp \<open>b\<close> is recorded as
  the reset value when it is smaller than \<open>a\<close> by more than 2000000000 (every time, so
  also the first time); it leaves the recorded value alone when it is smaller than \<open>a\<close> by
  less; and when it is not smaller than \<open>a\<close> it lowers the recorded value to \<open>b\<close> exactly
  when \<open>b\<close> is below the recorded value.
\<close>

theorem reset_tracking:
  "((\<forall>d \<in> set ds. sized d) \<longrightarrow>
      pass1_findings json_loads (legacy_file vid ds) =
        Some (first_ts (track_all (map rtp_timestamp ds)), reset (track_all (map rtp_timestamp ds)))) \<and>
   (0 \<notin> set (butlast (t # tss)) \<longrightarrow>
      first_ts (track_all (t # tss)) = (if t > 1000000 then t - 1000000 else t)) \<and>
   (successively (\<lambda>a b. \<not> (b < a \<and> a - b > 2000000000)) tss \<longrightarrow> reset (track_all tss) = 0) \<and>
   (a \<noteq> 0 \<longrightarrow>
      reset (track_all (pre @ [a, b])) =
        (if b < a then (if a - b > 2000000000 then b else reset (track_all (pre @ [a])))
         else if b < reset (track_all (pre @ [a])) then b
         else reset (track_all (pre @ [a]))))"
  using pass1_findings_legacy [of ds json_loads vid] first_ts_track_all [of t tss]
    reset_track_all_zero [of tss] reset_track_step [of a pre b]
  by blast

theorem reset_tracking_witness:
  "list_all sized restart_packets \<and>
   pass1_findings (\<lambda>text. None) (legacy_file True restart_packets) = Some (4293967000, 400) \<and>
   0 \<notin> set (butlast [4294967000, 500, 300, 400 :: 32 word]) \<and>
   first_ts (track_all [4294967000, 500, 300, 400]) = 4293967000 \<and>
   successively (\<lambda>a b. \<not> (b < a \<and> a - b > 2000000000)) [100, 300, 200 :: 32 word] \<and>
   reset (track_all [100, 300, 200]) = 0 \<and>
   reset (track_all [4294967000, 500]) = 500 \<and>
   reset (track_all [4294967000, 500, 300]) = 500 \<and>
   reset (track_all [4294967000, 500, 300, 400]) = 400"
proof -
  note r = reset_tracking [where json_loads = "\<lambda>text. None" and vid = True and ds = restart_packets
      and t = 4294967000 and tss = "[500, 300, 400]"]
  have 1: "pass1_findings (\<lambda>text. None) (legacy_file True restart_packets)
      = Some (first_ts (track_all [4294967000, 500, 300, 400]), reset (track_all [4294967000, 500, 300, 400]))"
    using r restart_packets_facts(1,3) by simp
  have 2: "first_ts (track_all [4294967000, 500, 300, 400]) = 4293967000"
    using r by simp
  have 3: "reset (track_all [100, 300, 200]) = 0"
    using reset_tracking [where tss = "[100, 300, 200]"] by simp
  have 4: "reset (track_all ([] @ [4294967000, 500])) = 500"
    using reset_tracking [where pre = "[]" and a = 4294967000 and b = 500] by simp
  have 5: "reset (track_all ([4294967000] @ [500, 300])) = 500"
    using reset_tracking [where pre = "[4294967000]" and a = 500 and b = 300] 4 by simp
  have 6: "reset (track_all ([4294967000, 500] @ [300, 400])) = 400"
    using reset_tracking [where pre = "[4294967000, 500]" and a = 300 and b = 400] 5 by simp
  show ?thesis
    using 1 2 3 4 5 6 restart_packets_facts(1) by (simp add: list_all_iff)
qed

lemma replicate_update_same [simp]: "(replicate n x)[i := x] = replicate n x"
  by (induction n arbitrary: i) (auto split: nat.splits)

lemmas eval_info = info_file_def info_text_def info_loads_def video_info_def info_header_ok_def
  json_object_get_def strcasecmp_eq_def tolower_def c_string_def

text \<open>
  C4, the code at a container in the current format. After the info header has been
  parsed the first loop does not go on to the next record as it does after a legacy
  header: it reads sixteen more bytes, which are the start of the next record, and takes
  bytes 4 to 7 of them, the letters \<open>ECHO\<close> of the tag \<open>MEETECHO\<close>, for a timestamp. So
  with the frames 1000000000, 3500000000, 100 behind an info header \<open>first_ts\<close> is
  1161037327 (\<open>ECHO\<close> read as a number, less 1000000), where the same frames behind a
  legacy header give 999000000 (the first timestamp, less 1000000); the first frame is
  then taken for one after the reset and the index plays the frames in the order 2, 3, 1
  instead of 1, 2, 3.
\<close>

theorem info_header_feeds_pass1:
  "map rtp_timestamp restarted_video = [1000000000, 3500000000, 100] \<and>
   ntohl (ch CHR ''E'') (ch CHR ''C'') (ch CHR ''H'') (ch CHR ''O'') - 1000000 = 1161037327 \<and>
   pass1_findings info_loads (info_file restarted_video) = Some (1161037327, 100) \<and>
   pass1_findings info_loads (legacy_file True restarted_video) = Some (999000000, 100) \<and>
   map_option (map seq) (index_of info_loads (info_file restarted_video)) = Some [2, 3, 1] \<and>
   map_option (map seq) (index_of info_loads (legacy_file True restarted_video)) = Some [1, 2, 3]"
proof -
  have "map rtp_timestamp restarted_video = [1000000000, 3500000000, 100]"
    by (simp add: restarted_video_def rtp_packet_def htons_def htonl_def rtp_timestamp_def ntohl_def)
  moreover have "ntohl (ch CHR ''E'') (ch CHR ''C'') (ch CHR ''H'') (ch CHR ''O'') - 1000000 = 1161037327"
    by (simp add: ntohl_def ch_def)
  moreover have "pass1_findings info_loads (info_file restarted_video) = Some (1161037327, 100)"
    by (simp add: restarted_video_def pass1_findings_def eval_info eval_defs)
  moreover have "pass1_findings info_loads (legacy_file True restarted_video) = Some (999000000, 100)"
    by (simp add: restarted_video_def pass1_findings_def legacy_file_def eval_defs)
  moreover have "map_option (map seq) (index_of info_loads (info_file restarted_video)) = Some [2, 3, 1]"
    by (simp add: restarted_video_def index_of_def frames_list_def eval_info eval_defs)
  moreover have "map_option (map seq) (index_of info_loads (legacy_file True restarted_video)) = Some [1, 2, 3]"
    by (simp add: restarted_video_def index_of_def legacy_file_def frames_list_def eval_defs)
  ultimately show ?thesis by simp
qed

text \<open>
  The extended timestamp of every node of every index is the one the rule of pass 2 gives
  for the raw timestamp written in the file at the node's offset, with the \<open>first_ts\<close> and
  \<open>reset\<close> that pass 1 found: the raw value when \<open>reset\<close> is 0 or the raw value is above
  \<open>first_ts\<close>, and the raw value plus 4294967296 otherwise.
\<close>

lemma get_frames_extended_ts:
  assumes "get_frames json_loads f = Some (Frames h listp)"
    and "pass1_findings json_loads f = Some (first, rst)"
    and "n \<in> set h" "offset n + 8 \<le> length f"
  shows "ts n = extended_ts rst first
           (ntohl (f ! (offset n + 4)) (f ! (offset n + 5)) (f ! (offset n + 6)) (f ! (offset n + 7)))"
  using get_frames_cases [of json_loads f] assms
  by (auto simp: pass1_findings_def node_ok_def)

text \<open>
  C2, the code at a container whose timestamps wrap around to exactly 0 (4294967000,
  then 0, then 160, in a legacy container). Pass 1 sees the drop and records the reset
  value, which is the timestamp 0, and 0 is also what says that there was no reset; the
  last timestamp being 0, the next frame sets \<open>first_ts\<close> anew. Pass 2 finds \<open>reset\<close> at 0
  and gives every frame its raw timestamp: the frames after the wrap get 0 and 160, not
  4294967296 and 4294967456, the timeline 4294967000, 0, 160 is not monotonic and the
  index plays the frames after the wrap first.
\<close>

theorem wrap_to_zero_not_extended:
  "map rtp_timestamp wrap_to_zero = [4294967000, 0, 160] \<and>
   pass1_findings (\<lambda>text. None) (legacy_file True wrap_to_zero) = Some (160, 0) \<and>
   map_option (map (\<lambda>p. (seq p, ts p))) (index_of (\<lambda>text. None) (legacy_file True wrap_to_zero))
     = Some [(2, 0), (3, 160), (1, 4294967000)]"
proof -
  have "map rtp_timestamp wrap_to_zero = [4294967000, 0, 160]"
    by (simp add: wrap_to_zero_def rtp_packet_def htons_def htonl_def rtp_timestamp_def ntohl_def)
  moreover have "pass1_findings (\<lambda>text. None) (legacy_file True wrap_to_zero) = Some (160, 0)"
    by (simp add: wrap_to_zero_def pass1_findings_def legacy_file_def eval_defs)
  moreover have "map_option (map (\<lambda>p. (seq p, ts p)))
      (index_of (\<lambda>text. None) (legacy_file True wrap_to_zero))
     = Some [(2, 0), (3, 160), (1, 4294967000)]"
    by (simp add: wrap_to_zero_def index_of_def legacy_file_def frames_list_def eval_defs)
  ultimately show ?thesis by simp
qed

section \<open>Claims about the playout and the requests\<close>


lemma burst_list: "frames_list burst_index (Some 0) = burst_index"
  by (simp add: burst_index_def frames_list_def)

lemma two_seconds_frames:
  "get_frames (\<lambda>text. None) (legacy_file False two_seconds_apart) = Some (Frames two_seconds_index (Some 0))"
  by (simp add: two_seconds_apart_def two_seconds_index_def legacy_file_def eval_defs)

lemma two_seconds_list: "frames_list two_seconds_index (Some 0) = two_seconds_index"
  by (simp add: two_seconds_index_def frames_list_def)

lemmas play_eval =
  video_step_Some audio_step_Some send_same_ts_Some send_same_ts_None send_packet_def fread_def
  next_pos_def rtp_set_type_def passed_us_def ts_diff_us_def update_reference_def
  c_div_def c_mod_def akhz_def vkhz_def Let_def

lemma disk_paths:
  "source_path ''/rec'' ''rec-5-video'' = ''/rec/rec-5-video.mjr''"
  "source_path ''/rec'' ''rec-6-audio'' = ''/rec/rec-6-audio.mjr''"
  "source_path ''/rec'' ''rec-7-audio'' = ''/rec/rec-7-audio.mjr''"
  by (simp_all add: source_path_def strstr_def)


text \<open>
  C6, the code at a gap of two seconds. The expected gap of a packet that is not the first
  of its track is the difference of its extended timestamp and the one before it, times
  1000, divided by the clock rate in kHz (\<open>ts_diff_us\<close>, \<open>ts_diff_us_formula\<close>), with 8 kHz
  for the audio payload types 0, 8 and 9, 48 kHz for other audio and 90 kHz for video
  (\<open>akhz\<close>, \<open>vkhz\<close>); the packet is deferred exactly when the time passed since the
  reference time is below the expected gap less 5000 (\<open>audio_step_Some\<close>,
  \<open>video_step_Some\<close>, \<open>passed_us_total\<close>). "Update the reference time" adds the
  microseconds of the gap to \<open>tv_usec\<close> and its whole seconds to \<open>tv_sec\<close>, and then takes
  the number of whole seconds from \<open>tv_usec\<close>: the reference time moves by the gap less one
  microsecond for each whole second of it (\<open>update_reference_total\<close>), which is the gap
  only below one second (\<open>update_reference_below_second\<close>). An audio container at 48 kHz
  has two packets with the timestamps 48000 and 144000; the expected gap of the second is
  2000000 microseconds; with the reference time at 100 s and the clock at 103 s the
  packet is sent and the reference time becomes 102 s less 2 microseconds, not 102 s.
\<close>

theorem reference_short_of_expected_gap:
  "index_of (\<lambda>text. None) (legacy_file False two_seconds_apart) = Some two_seconds_index \<and>
   map ts two_seconds_index = [48000, 144000] \<and>
   ts_diff_us (akhz 111) 144000 48000 = 2000000 \<and>
   map_option (\<lambda>(pkts, sent, pos, tv, b). (sent, tv))
     (audio_step (legacy_file False two_seconds_apart) two_seconds_index 111
        \<lparr>tv_sec = 103, tv_usec = 0\<rparr> (Some 1, \<lparr>tv_sec = 100, tv_usec = 0\<rparr>, replicate 1500 0))
     = Some (True, \<lparr>tv_sec = 102, tv_usec = - 2\<rparr>)"
proof -
  have "index_of (\<lambda>text. None) (legacy_file False two_seconds_apart) = Some two_seconds_index"
    by (simp add: index_of_def two_seconds_frames two_seconds_list)
  moreover have "map ts two_seconds_index = [48000, 144000]"
    by (simp add: two_seconds_index_def)
  moreover have "ts_diff_us (akhz 111) 144000 48000 = 2000000"
    by (simp add: ts_diff_us_def akhz_def c_div_def)
  moreover have "map_option (\<lambda>(pkts, sent, pos, tv, b). (sent, tv))
     (audio_step (legacy_file False two_seconds_apart) two_seconds_index 111
        \<lparr>tv_sec = 103, tv_usec = 0\<rparr> (Some 1, \<lparr>tv_sec = 100, tv_usec = 0\<rparr>, replicate 1500 0))
     = Some (True, \<lparr>tv_sec = 102, tv_usec = - 2\<rparr>)"
    by (simp add: two_seconds_index_def two_seconds_apart_def legacy_file_def legacy_header_def
        frame_record_def rtp_packet_def htons_def htonl_def ch_def play_eval)
  ultimately show ?thesis by simp
qed

text \<open>
  C7. When the video part of an iteration sends (the flag \<open>vsent\<close>), it sends in that
  iteration the packet at the position and every packet that follows it with the same
  extended timestamp, up to the first packet with another timestamp or the end of the
  list; the new position is that packet (or NULL), so no packet with the timestamp of the
  burst is left for a later iteration. When it does not send, it sends nothing and the
  position stays. The video part returns for every position in a list whose packets fit
  the buffer.
\<close>

theorem video_burst_not_split:
  assumes "i < length fs" "\<forall>p \<in> set fs. len p \<le> 1500"
  shows "\<exists>pkts sent pos tv' buf'.
           video_step f fs pt now (Some i, tv, buf) = Some (pkts, sent, (pos, tv', buf')) \<and>
           (sent \<longrightarrow>
              pkts = map (\<lambda>p. rtp_set_type (recorded f p) pt)
                       (takeWhile (\<lambda>p. ts p = ts (fs ! i)) (drop i fs)) \<and>
              pkts \<noteq> [] \<and>
              pos = (if i + length pkts < length fs then Some (i + length pkts) else None) \<and>
              (\<forall>j. pos = Some j \<longrightarrow> ts (fs ! j) \<noteq> ts (fs ! i))) \<and>
           (\<not> sent \<longrightarrow> pkts = [] \<and> pos = Some i)"
proof -
  from video_step_returns [OF assms, of f pt now tv buf] obtain pkts sent pos tv' buf' where
    v: "video_step f fs pt now (Some i, tv, buf) = Some (pkts, sent, (pos, tv', buf'))"
    by (cases "video_step f fs pt now (Some i, tv, buf)") auto
  have "(sent \<longrightarrow>
              pkts = map (\<lambda>p. rtp_set_type (recorded f p) pt)
                       (takeWhile (\<lambda>p. ts p = ts (fs ! i)) (drop i fs)) \<and>
              pkts \<noteq> [] \<and>
              pos = (if i + length pkts < length fs then Some (i + length pkts) else None) \<and>
              (\<forall>j. pos = Some j \<longrightarrow> ts (fs ! j) \<noteq> ts (fs ! i))) \<and>
           (\<not> sent \<longrightarrow> pkts = [] \<and> pos = Some i)"
  proof (cases sent)
    case False
    with v have "video_step f fs pt now (Some i, tv, buf) = Some (pkts, False, (pos, tv', buf'))"
      by simp
    from video_step_not_sent [OF this] False show ?thesis
      by simp
  next
    case True
    with v have "video_step f fs pt now (Some i, tv, buf) = Some (pkts, True, (pos, tv', buf'))"
      by simp
    note r = video_step_sent [OF this]
    note f = same_ts_run_facts [OF assms(1)]
    from r have l: "length pkts = length (same_ts_run fs i)"
      by simp
    from r f(1) have ne: "pkts \<noteq> []"
      by simp
    from r l have p: "pos = (if i + length pkts < length fs then Some (i + length pkts) else None)"
      by simp
    have d: "ts (fs ! j) \<noteq> ts (fs ! i)" if "pos = Some j" for j
    proof -
      from that p have "i + length pkts < length fs" "j = i + length pkts"
        by (simp_all split: if_splits)
      with f(4) l show ?thesis
        by simp
    qed
    from r have "pkts = map (\<lambda>p. rtp_set_type (recorded f p) pt)
                       (takeWhile (\<lambda>p. ts p = ts (fs ! i)) (drop i fs))"
      by (simp add: same_ts_run_def)
    with True ne p d show ?thesis
      by blast
  qed
  with v show ?thesis
    by blast
qed

theorem video_burst_not_split_witness:
  "0 < length burst_index \<and> list_all (\<lambda>p. len p \<le> 1500) burst_index \<and>
   map_option (\<lambda>(pkts, sent, pos, tv, b). (pkts, sent, pos))
     (video_step (legacy_file True burst_video) burst_index 100 \<lparr>tv_sec = 7, tv_usec = 0\<rparr>
        (Some 0, \<lparr>tv_sec = 7, tv_usec = 0\<rparr>, replicate 1500 0))
     = Some ([rtp_packet 100 1 90000 [1], rtp_packet 100 2 90000 [2], rtp_packet 100 3 90000 [3]],
             True, Some 3) \<and>
   map_option (\<lambda>(pkts, sent, pos, tv, b). (pkts, sent, pos))
     (video_step (legacy_file True burst_video) burst_index 100 \<lparr>tv_sec = 7, tv_usec = 28000\<rparr>
        (Some 3, \<lparr>tv_sec = 7, tv_usec = 0\<rparr>, replicate 1500 0))
     = Some ([], False, Some 3) \<and>
   map_option (\<lambda>(pkts, sent, pos, tv, b). (pkts, sent, pos))
     (video_step (legacy_file True burst_video) burst_index 100 \<lparr>tv_sec = 7, tv_usec = 29000\<rparr>
        (Some 3, \<lparr>tv_sec = 7, tv_usec = 0\<rparr>, replicate 1500 0))
     = Some ([rtp_packet 100 4 93000 [4]], True, None)"
  using video_burst_not_split [of 0 burst_index "legacy_file True burst_video" 100
      "\<lparr>tv_sec = 7, tv_usec = 0\<rparr>" "\<lparr>tv_sec = 7, tv_usec = 0\<rparr>" "replicate 1500 0"]
  by (simp add: burst_index_def burst_video_def legacy_file_def legacy_header_def frame_record_def
      rtp_packet_def htons_def htonl_def ch_def play_eval)

text \<open>
  C10. Every RTP packet that the playout thread of a session relays is a packet of one
  of the lists of the session, read from the container of its track at the offset and
  with the length of the index, with all its bytes as recorded except the byte 1: there
  the marker bit is the recorded one and the seven bits of the payload type are the
  payload type of the recording for the track, whatever was recorded. For video that is
  100; for audio it is 0 when the audio codec of the recording is pcmu, 8 for pcma, 9
  for g722 (in any case of the letters) and 111 for any other codec or none. The
  payload types of the recording are those every record request sets
  (\<open>record_new_payload_types\<close>, \<open>play_new_payload_types\<close>).
\<close>

theorem relayed_packet_retyped:
  assumes "playout_thread fopen path regs s start inputs = Some (Some (evs, st))"
    and "recording s = Some i" "regs i = Some r"
    and "audio_pt r = fixed_audio_pt (acodec r)" "video_pt r = VIDEO_PT"
    and "Relay_rtp v pkt \<in> set evs"
  shows "\<exists>f p.
           (if v then vrc_file r \<noteq> None \<and> fopen (source_path path (the (vrc_file r))) = Some f \<and>
                     p \<in> set (frames_list (fst (vframes s)) (snd (vframes s)))
            else arc_file r \<noteq> None \<and> fopen (source_path path (the (arc_file r))) = Some f \<and>
                 p \<in> set (frames_list (fst (aframes s)) (snd (aframes s)))) \<and>
           pkt = (recorded f p)
                   [1 := (recorded f p ! 1 AND 128) OR
                         (if v then 100
                          else if acodec r = None then 111
                          else if strcasecmp_eq (the (acodec r)) ''pcmu'' then 0
                          else if strcasecmp_eq (the (acodec r)) ''pcma'' then 8
                          else if strcasecmp_eq (the (acodec r)) ''g722'' then 9
                          else 111)]"
proof -
  let ?af = "if snd (aframes s) \<noteq> None then the (fopen (source_path path (the (arc_file r)))) else []"
  let ?vf = "if snd (vframes s) \<noteq> None then the (fopen (source_path path (the (vrc_file r)))) else []"
  let ?al = "frames_list (fst (aframes s)) (snd (aframes s))"
  let ?vl = "frames_list (fst (vframes s)) (snd (vframes s))"
  from assms(1-3) have
    a: "snd (aframes s) \<noteq> None \<longrightarrow>
          arc_file r \<noteq> None \<and> fopen (source_path path (the (arc_file r))) \<noteq> None" and
    b: "snd (vframes s) \<noteq> None \<longrightarrow>
          vrc_file r \<noteq> None \<and> fopen (source_path path (the (vrc_file r))) \<noteq> None"
    by (simp_all add: playout_thread_def split: if_splits)
  from assms(1-3) obtain st0 where
    l: "playout_loop ?af ?al (audio_pt r) ?vf ?vl (video_pt r) inputs st0 = Some (evs, st)"
    by (simp add: playout_thread_def Let_def split: if_splits)
  note e = playout_loop_events [OF l assms(6)]
  have nil: "frames_list h None = []" for h
    by (simp add: frames_list_def)
  show ?thesis
  proof (cases v)
    case True
    with e obtain p where p: "p \<in> set ?vl" "pkt = rtp_set_type (recorded ?vf p) (video_pt r)"
      by auto
    from p(1) have n: "snd (vframes s) \<noteq> None"
      by (cases "snd (vframes s)") (simp_all add: nil)
    with b obtain f where f: "vrc_file r \<noteq> None" "fopen (source_path path (the (vrc_file r))) = Some f"
      by auto
    with p n True assms(5) show ?thesis
      by (auto simp: rtp_set_type_def VIDEO_PT_def)
  next
    case False
    with e obtain p where p: "p \<in> set ?al" "pkt = rtp_set_type (recorded ?af p) (audio_pt r)"
      by auto
    from p(1) have n: "snd (aframes s) \<noteq> None"
      by (cases "snd (aframes s)") (simp_all add: nil)
    with a obtain f where f: "arc_file r \<noteq> None" "fopen (source_path path (the (arc_file r))) = Some f"
      by auto
    from p(2) n f assms(4)
    have "pkt = (recorded f p)[1 := (recorded f p ! 1 AND 128) OR
                  (word_of_int (fixed_audio_pt (acodec r)) AND 127)]"
      by (simp add: rtp_set_type_def)
    with p(1) f False show ?thesis
      unfolding fixed_audio_pt_byte by auto
  qed
qed

theorem relayed_packet_retyped_witness:
  "(\<exists>st. playout_thread disk ''/rec'' [5 \<mapsto> video_recording] viewer_session
            \<lparr>tv_sec = 7, tv_usec = 0\<rparr> [(True, \<lparr>tv_sec = 7, tv_usec = 0\<rparr>, \<lparr>tv_sec = 7, tv_usec = 0\<rparr>)] =
          Some (Some ([Usleep 5000, Relay_rtp True (rtp_packet 100 1 90000 [1]),
                       Relay_rtp True (rtp_packet 100 2 90000 [2]),
                       Relay_rtp True (rtp_packet 100 3 90000 [3])], st))) \<and>
   recording viewer_session = Some 5 \<and>
   audio_pt video_recording = fixed_audio_pt (acodec video_recording) \<and>
   video_pt video_recording = VIDEO_PT \<and>
   recorded (legacy_file True burst_video) (burst_index ! 0) = rtp_packet 96 1 90000 [1] \<and>
   (\<exists>f p. vrc_file video_recording \<noteq> None \<and>
          disk (source_path ''/rec'' (the (vrc_file video_recording))) = Some f \<and>
          p \<in> set (frames_list (fst (vframes viewer_session)) (snd (vframes viewer_session))) \<and>
          rtp_packet 100 1 90000 [1] = (recorded f p)[1 := (recorded f p ! 1 AND 128) OR 100])"
proof -
  let ?t = "\<lparr>tv_sec = 7, tv_usec = 0\<rparr>"
  let ?evs = "[Usleep 5000, Relay_rtp True (rtp_packet 100 1 90000 [1]),
               Relay_rtp True (rtp_packet 100 2 90000 [2]),
               Relay_rtp True (rtp_packet 100 3 90000 [3])]"
  have v: "video_recording = \<lparr>rid = 5, name = Some ''demo'', date = ''2020-01-01 00:00:00'',
       arc_file = None, acodec = None, audio_pt = 111,
       vrc_file = Some ''rec-5-video'', vcodec = Some ''vp8'', video_pt = 100,
       offer = Some ''v=0'', viewers = [], completed = True, destroyed = False, ref = 1\<rparr>"
    by (simp add: video_recording_def)
  have nil: "frames_list [] None = []"
    by (simp add: frames_list_def)
  have th: "playout_thread disk ''/rec'' [5 \<mapsto> video_recording] viewer_session ?t [(True, ?t, ?t)] =
      map_option Some
        (playout_loop [] [] 111 (legacy_file True burst_video) burst_index 100 [(True, ?t, ?t)]
           \<lparr>audio = None, video = Some 0, abefore = ?t, vbefore = ?t, asent = False, vsent = False,
             buffer = replicate 1500 0\<rparr>)"
    by (simp add: playout_thread_def viewer_session_def new_session_def v disk_paths disk_def
        burst_list nil Let_def del: playout_loop.simps)
  have vs: "map_option (\<lambda>(pkts, sent, pos, tv, b). (pkts, sent, pos))
     (video_step (legacy_file True burst_video) burst_index 100 ?t (Some 0, ?t, replicate 1500 0))
     = Some ([rtp_packet 100 1 90000 [1], rtp_packet 100 2 90000 [2], rtp_packet 100 3 90000 [3]],
             True, Some 3)"
    by (simp add: burst_index_def burst_video_def legacy_file_def legacy_header_def frame_record_def
        rtp_packet_def htons_def htonl_def ch_def play_eval)
  then obtain tv b where vs': "video_step (legacy_file True burst_video) burst_index 100 ?t
      (Some 0, ?t, replicate 1500 0) =
      Some ([rtp_packet 100 1 90000 [1], rtp_packet 100 2 90000 [2], rtp_packet 100 3 90000 [3]],
            True, Some 3, tv, b)"
    by (auto simp: map_option_case split: option.splits)
  have e: "map_option (map_option fst)
      (playout_thread disk ''/rec'' [5 \<mapsto> video_recording] viewer_session ?t [(True, ?t, ?t)])
     = Some (Some ?evs)"
    unfolding th by (simp add: playout_iteration_def audio_step_None vs')
  then obtain st where t: "playout_thread disk ''/rec'' [5 \<mapsto> video_recording] viewer_session ?t
      [(True, ?t, ?t)] = Some (Some (?evs, st))"
    by (auto simp: map_option_case split: option.splits)
  have p: "audio_pt video_recording = fixed_audio_pt (acodec video_recording)"
    "video_pt video_recording = VIDEO_PT" "recording viewer_session = Some 5"
    by (simp_all add: v fixed_audio_pt_def AUDIO_PT_def VIDEO_PT_def viewer_session_def new_session_def)
  have r: "recorded (legacy_file True burst_video) (burst_index ! 0) = rtp_packet 96 1 90000 [1]"
    by (simp add: recorded_def burst_index_def burst_video_def legacy_file_def legacy_header_def
        frame_record_def rtp_packet_def htons_def htonl_def ch_def)
  have m: "Relay_rtp True (rtp_packet 100 1 90000 [1]) \<in> set ?evs"
    by simp
  from relayed_packet_retyped [OF t p(3) _ p(1,2) m] t p r show ?thesis
    by auto
qed

text \<open>
  C9. A record request for a new recording whose \<open>id\<close> is an integer that is not 0 as an
  unsigned 64 bit number (every positive id below \<open>2^64\<close>, \<open>positive_id_nonzero\<close>) and is
  in the table ends with the error \<open>RECORDING_EXISTS\<close>: the table and the session are
  unchanged and the only calls are taking the mutex, the lookup of the id and releasing
  the mutex, so no recording and no recorder file is made. Without an \<open>id\<close>, or with one
  whose value is 0, random numbers are drawn and looked up in the table, one after the
  other, up to the first one that is neither 0 nor in the table; that one is the id of
  the new recording, which alone is added to the table. All draws and lookups come after
  taking the mutex and before the recording is made, and the mutex is released last. If
  no random number is ever nonzero and new, the request never returns.
\<close>

theorem record_id_selection:
  "(rec_id rq = Some (JInteger m) \<and> (word_of_int m :: 64 word) \<noteq> 0 \<and> regs (word_of_int m) \<noteq> None \<longrightarrow>
      (\<exists>cause. record_new rq rnd regs s =
         Some (Error ERROR_RECORDING_EXISTS cause, regs, s,
               [Mutex_lock, Hash_table_lookup (word_of_int m), Mutex_unlock]))) \<and>
   ((rec_id rq = None \<or> json_integer_value (rec_id rq) = 0) \<and>
    rnd k \<noteq> 0 \<and> regs (rnd k) = None \<and> (\<forall>j < k. rnd j = 0 \<or> regs (rnd j) \<noteq> None) \<longrightarrow>
      (\<exists>s' creates. record_new rq rnd regs s =
         Some (Result (rnd k), regs(rnd k \<mapsto> new_recording rq (rnd k)), s',
               Mutex_lock # draws rnd 0 (Suc k) @ [Malloc_recording (rnd k)] @ creates
                 @ [Hash_table_insert (rnd k), Mutex_unlock]) \<and>
         recording s' = Some (rnd k) \<and> recorder s' \<and>
         (\<forall>c \<in> set creates. \<exists>codec filename. c = Recorder_create codec filename))) \<and>
   ((rec_id rq = None \<or> json_integer_value (rec_id rq) = 0) \<and>
    (\<forall>j. rnd j = 0 \<or> regs (rnd j) \<noteq> None) \<longrightarrow>
      record_new rq rnd regs s = None)"
proof (intro conjI impI)
  assume "rec_id rq = Some (JInteger m) \<and> (word_of_int m :: 64 word) \<noteq> 0 \<and> regs (word_of_int m) \<noteq> None"
  then show "\<exists>cause. record_new rq rnd regs s =
         Some (Error ERROR_RECORDING_EXISTS cause, regs, s,
               [Mutex_lock, Hash_table_lookup (word_of_int m), Mutex_unlock])"
    using record_new_exists [of rq m regs rnd s] by blast
next
  assume a: "(rec_id rq = None \<or> json_integer_value (rec_id rq) = 0) \<and>
    rnd k \<noteq> 0 \<and> regs (rnd k) = None \<and> (\<forall>j < k. rnd j = 0 \<or> regs (rnd j) \<noteq> None)"
  then have "random_id rnd 0 regs [Mutex_lock] = Some (rnd k, [Mutex_lock] @ draws rnd 0 (Suc k))"
    by (intro random_id_finds) simp_all
  from record_new_random [OF _ this, of rq s] a
  show "\<exists>s' creates. record_new rq rnd regs s =
         Some (Result (rnd k), regs(rnd k \<mapsto> new_recording rq (rnd k)), s',
               Mutex_lock # draws rnd 0 (Suc k) @ [Malloc_recording (rnd k)] @ creates
                 @ [Hash_table_insert (rnd k), Mutex_unlock]) \<and>
         recording s' = Some (rnd k) \<and> recorder s' \<and>
         (\<forall>c \<in> set creates. \<exists>codec filename. c = Recorder_create codec filename)"
    by (intro exI [of _ "(if acodec (new_recording rq (rnd k)) \<noteq> None
                 then [Recorder_create (acodec (new_recording rq (rnd k))) (the (arc_file (new_recording rq (rnd k))))] else [])
              @ (if vcodec (new_recording rq (rnd k)) \<noteq> None
                 then [Recorder_create (vcodec (new_recording rq (rnd k))) (the (vrc_file (new_recording rq (rnd k))))] else [])"]
        exI [of _ "s\<lparr>arc := (if acodec (new_recording rq (rnd k)) \<noteq> None then arc_file (new_recording rq (rnd k)) else arc s),
              vrc := (if vcodec (new_recording rq (rnd k)) \<noteq> None then vrc_file (new_recording rq (rnd k)) else vrc s),
              recorder := True, recording := Some (rnd k), sdp_version := 1, sdp_sessid := real_time rq\<rparr>"])
       auto
next
  assume a: "(rec_id rq = None \<or> json_integer_value (rec_id rq) = 0) \<and>
    (\<forall>j. rnd j = 0 \<or> regs (rnd j) \<noteq> None)"
  then have "random_id rnd 0 regs [Mutex_lock] = None"
    by (intro random_id_never) simp
  from record_new_never [OF _ this, of rq s] a show "record_new rq rnd regs s = None"
    by simp
qed

theorem record_id_selection_witness:
  "(\<exists>cause. record_new (id_request (Some (JInteger 5))) random_example [5 \<mapsto> video_recording] new_session =
      Some (Error ERROR_RECORDING_EXISTS cause, [5 \<mapsto> video_recording], new_session,
            [Mutex_lock, Hash_table_lookup 5, Mutex_unlock])) \<and>
   (\<exists>s' creates. record_new (id_request None) random_example [5 \<mapsto> video_recording] new_session =
      Some (Result 7, [5 \<mapsto> video_recording, 7 \<mapsto> new_recording (id_request None) 7], s',
            Mutex_lock #
            [Random_uint64 0, Hash_table_lookup 0, Random_uint64 5, Hash_table_lookup 5,
             Random_uint64 7, Hash_table_lookup 7]
            @ [Malloc_recording 7] @ creates @ [Hash_table_insert 7, Mutex_unlock])) \<and>
   record_new (id_request (Some (JInteger 0))) (\<lambda>n. 5) [5 \<mapsto> video_recording] new_session = None"
proof -
  have d: "draws random_example 0 (Suc 2) =
      [Random_uint64 0, Hash_table_lookup 0, Random_uint64 5, Hash_table_lookup 5,
       Random_uint64 7, Hash_table_lookup 7]"
    by (simp add: draws_def random_example_def numeral_2_eq_2)
  have b: "\<forall>j < 2. random_example j = 0 \<or> [5 \<mapsto> video_recording] (random_example j) \<noteq> None"
    by (auto simp: random_example_def)
  have 1: "\<exists>cause. record_new (id_request (Some (JInteger 5))) random_example [5 \<mapsto> video_recording] new_session =
      Some (Error ERROR_RECORDING_EXISTS cause, [5 \<mapsto> video_recording], new_session,
            [Mutex_lock, Hash_table_lookup 5, Mutex_unlock])"
    using record_id_selection [of "id_request (Some (JInteger 5))" 5 "[5 \<mapsto> video_recording]"
      random_example new_session 2]
    by (simp add: id_request_def)
  have "\<exists>s' creates. record_new (id_request None) random_example [5 \<mapsto> video_recording] new_session =
         Some (Result (random_example 2),
               [5 \<mapsto> video_recording, random_example 2 \<mapsto> new_recording (id_request None) (random_example 2)], s',
               Mutex_lock # draws random_example 0 (Suc 2) @ [Malloc_recording (random_example 2)] @ creates
                 @ [Hash_table_insert (random_example 2), Mutex_unlock]) \<and>
         recording s' = Some (random_example 2) \<and> recorder s' \<and>
         (\<forall>c \<in> set creates. \<exists>codec filename. c = Recorder_create codec filename)"
    using record_id_selection [of "id_request None" 5 "[5 \<mapsto> video_recording]"
      random_example new_session 2] b
    by (simp add: id_request_def random_example_def)
  then have 2: "\<exists>s' creates. record_new (id_request None) random_example [5 \<mapsto> video_recording] new_session =
      Some (Result 7, [5 \<mapsto> video_recording, 7 \<mapsto> new_recording (id_request None) 7], s',
            Mutex_lock #
            [Random_uint64 0, Hash_table_lookup 0, Random_uint64 5, Hash_table_lookup 5,
             Random_uint64 7, Hash_table_lookup 7]
            @ [Malloc_recording 7] @ creates @ [Hash_table_insert 7, Mutex_unlock])"
    unfolding d by (auto simp: random_example_def)
  have 3: "record_new (id_request (Some (JInteger 0))) (\<lambda>n. 5) [5 \<mapsto> video_recording] new_session = None"
    using record_id_selection [of "id_request (Some (JInteger 0))" 0 "[5 \<mapsto> video_recording]"
      "\<lambda>n. 5" new_session 0]
    by (simp add: id_request_def json_integer_value_def)
  from 1 2 3 show ?thesis
    by blast
qed




end
